theory Spec2Isabelle
  imports Main "HOL-Library.Char_ord" "HOL-Library.List_Lexorder" "HOL-Library.Multiset"
begin

section \<open>Strings and library functions\<close>

text \<open>
  Go strings are byte sequences; they are modelled as \<open>string\<close> (a list of 8-bit
  characters), ordered bytewise.  \<open>strings.IndexByte s c\<close> returns the index of the
  first \<open>c\<close> in \<open>s\<close>, or \<open>-1\<close>; the model returns \<open>None\<close> for \<open>-1\<close>.
\<close>

fun IndexByte :: "string \<Rightarrow> char \<Rightarrow> nat option" where
  "IndexByte [] c = None"
| "IndexByte (x # xs) c =
     (if x = c then Some 0
      else (case IndexByte xs c of None \<Rightarrow> None | Some i \<Rightarrow> Some (Suc i)))"

text \<open>
  \<open>strings.TrimSpace\<close>, for the ASCII white space characters (tab, line feed, vertical
  tab, form feed, carriage return, space); the Unicode spaces beyond ASCII are not
  modelled.
\<close>

definition isSpace :: "char \<Rightarrow> bool" where
  "isSpace c \<longleftrightarrow> c \<in> {CHR 0x09, CHR 0x0A, CHR 0x0B, CHR 0x0C, CHR 0x0D, CHR '' ''}"

definition TrimSpace :: "string \<Rightarrow> string" where
  "TrimSpace s = rev (dropWhile isSpace (rev (dropWhile isSpace s)))"

text \<open>\<open>strings.Split s sep\<close> for a one-byte separator: always at least one piece.\<close>

fun Split :: "string \<Rightarrow> char \<Rightarrow> string list" where
  "Split [] sep = ['''']"
| "Split (c # cs) sep =
     (if c = sep then '''' # Split cs sep
      else (case Split cs sep of [] \<Rightarrow> [c] # [] | p # ps \<Rightarrow> (c # p) # ps))"

text \<open>\<open>strings.Cut s sep\<close>: the text before and after the first separator.\<close>

fun Cut :: "string \<Rightarrow> char \<Rightarrow> string \<times> string" where
  "Cut [] sep = ([], [])"
| "Cut (c # cs) sep = (if c = sep then ([], cs) else (case Cut cs sep of (b, a) \<Rightarrow> (c # b, a)))"

lemma Cut_shorter: "Cut s sep = (b, a) \<Longrightarrow> s \<noteq> [] \<Longrightarrow> length a < length s"
proof (induction s arbitrary: b a)
  case Nil
  then show ?case by simp
next
  case (Cons c cs)
  then show ?case
    by (cases cs) (auto split: if_splits prod.splits)
qed

section \<open>Errors\<close>

text \<open>
  Every error return of the package is a constructor; \<open>Panic\<close> stands for a run-time
  panic (of the package itself, of the reflection library or of the runtime), which
  nothing in the package recovers from.
\<close>

datatype error =
    EmptyInput
  | InvalidUnmarshalError
  | TopLevelNotStructOrMap
  | MapKeysNotStrings
  | InvalidFormData
  | InvalidKeySyntax
  | UnknownField string
  | CannotAssign
  | ExpectedSliceIndex
  | UnsupportedType
  | SetIntError
  | ParseUintError
  | ParseFloatError
  | ParseBoolError
  | HookError string
  | Panic string

section \<open>Path parser (path.go)\<close>

record pathSegment =
  Key :: string
  Index :: bool

definition named :: "string \<Rightarrow> pathSegment" where
  "named k = \<lparr>Key = k, Index = False\<rparr>"

definition indexMarker :: pathSegment where
  "indexMarker = \<lparr>Key = [], Index = True\<rparr>"

text \<open>
  The loop of \<open>parseKey\<close>, with the remaining key and the path built so far as its
  state.  Each round consumes at least the opening bracket, so the key gets shorter.
\<close>

function parseKey_loop :: "string \<Rightarrow> pathSegment list \<Rightarrow> error + pathSegment list" where
  "parseKey_loop key path =
     (if key = [] then Inr path
      else case IndexByte key CHR ''['' of
             None \<Rightarrow> Inr (path @ [named key])
           | Some i \<Rightarrow>
               (let path1 = (if i > 0 then path @ [named (take i key)] else path);
                    key1 = drop (i + 1) key
                in case IndexByte key1 CHR '']'' of
                     None \<Rightarrow> Inl InvalidKeySyntax
                   | Some j \<Rightarrow>
                       (let part = take j key1;
                            path2 = (if part = [] then path1 @ [indexMarker]
                                     else path1 @ [named part])
                        in parseKey_loop (drop (j + 1) key1) path2)))"
  by pat_completeness auto
termination
  by (relation "measure (\<lambda>(key, path). length key)") auto

declare parseKey_loop.simps [simp del]

definition parseKey :: "string \<Rightarrow> error + pathSegment list" where
  "parseKey key = parseKey_loop key []"

text \<open>
  The spec's wording of the failure condition: the key contains an opening bracket
  with no closing bracket anywhere after it.
\<close>

fun unterminated :: "string \<Rightarrow> bool" where
  "unterminated [] = False"
| "unterminated (c # cs) = ((c = CHR ''['' \<and> CHR '']'' \<notin> set cs) \<or> unterminated cs)"

section \<open>Types and values as reflection sees them\<close>

text \<open>
  The package inspects its arguments through \<open>reflect\<close>.  A Go type is a \<open>ty\<close>; the
  numbers are bit widths (\<open>int\<close> is \<open>TInt 64\<close>), a struct type lists its fields as
  (name, value of the \<open>form\<close> tag, type), \<open>TInterface\<close> is the empty interface,
  and \<open>TNamed n t\<close> is a defined type with underlying type \<open>t\<close>, whose methods are
  looked up under \<open>n\<close>.
\<close>

datatype ty =
    TString | TBool | TInt nat | TUint nat | TFloat nat | TComplex nat | TChan | TFunc
  | TPtr ty | TSlice ty | TArray nat ty | TMap ty ty
  | TStruct "(string \<times> string \<times> ty) list"
  | TInterface
  | TNamed string ty

text \<open>
  A value carries no type of its own except inside an interface, which holds the dynamic
  type next to the dynamic value.  \<open>VNil\<close> is the nil pointer, slice, map, interface,
  channel or function.  A map is the list of its entries; the order of the list has no
  meaning (iteration order is chosen by the runtime, see \<open>MapKeys\<close> below).  Every
  key is identified by a string: a key of string kind by its text, a key of interface type
  by the string it holds, a key of any other type by a text that tells the keys of the map
  apart.  A float is represented by its shortest decimal text.
\<close>

datatype val =
    VString string | VBool bool | VInt int | VUint nat | VFloat string
  | VComplex | VChan | VFunc
  | VNil
  | VPtr val
  | VSlice "val list"
  | VArray "val list"
  | VMap "(string \<times> val) list"
  | VStruct "val list"
  | VIface ty val

datatype kind = KString | KBool | KInt | KUint | KFloat | KComplex | KChan | KFunc
  | KPointer | KSlice | KArray | KMap | KStruct | KInterface

fun kindOf :: "ty \<Rightarrow> kind" where
  "kindOf TString = KString"
| "kindOf TBool = KBool"
| "kindOf (TInt b) = KInt"
| "kindOf (TUint b) = KUint"
| "kindOf (TFloat b) = KFloat"
| "kindOf (TComplex b) = KComplex"
| "kindOf TChan = KChan"
| "kindOf TFunc = KFunc"
| "kindOf (TPtr t) = KPointer"
| "kindOf (TSlice t) = KSlice"
| "kindOf (TArray n t) = KArray"
| "kindOf (TMap k t) = KMap"
| "kindOf (TStruct fs) = KStruct"
| "kindOf TInterface = KInterface"
| "kindOf (TNamed n t) = kindOf t"

text \<open>\<open>Type.Elem\<close>, \<open>Type.Key\<close>, \<open>Type.Bits\<close> and the fields of a struct type;
  each is only called on a kind that has the part asked for.\<close>

fun elemOf :: "ty \<Rightarrow> ty" where
  "elemOf (TPtr t) = t"
| "elemOf (TSlice t) = t"
| "elemOf (TArray n t) = t"
| "elemOf (TMap k t) = t"
| "elemOf (TNamed n t) = elemOf t"
| "elemOf t = t"

fun keyOf :: "ty \<Rightarrow> ty" where
  "keyOf (TMap k t) = k"
| "keyOf (TNamed n t) = keyOf t"
| "keyOf t = t"

fun bitsOf :: "ty \<Rightarrow> nat" where
  "bitsOf (TInt b) = b"
| "bitsOf (TUint b) = b"
| "bitsOf (TFloat b) = b"
| "bitsOf (TComplex b) = b"
| "bitsOf (TNamed n t) = bitsOf t"
| "bitsOf t = 0"

fun fieldsOf :: "ty \<Rightarrow> (string \<times> string \<times> ty) list" where
  "fieldsOf (TStruct fs) = fs"
| "fieldsOf (TNamed n t) = fieldsOf t"
| "fieldsOf t = []"

text \<open>The zero value of a type, as \<open>reflect.New(t).Elem()\<close> yields it.\<close>

fun zero :: "ty \<Rightarrow> val" where
  "zero TString = VString []"
| "zero TBool = VBool False"
| "zero (TInt b) = VInt 0"
| "zero (TUint b) = VUint 0"
| "zero (TFloat b) = VFloat ''0''"
| "zero (TComplex b) = VComplex"
| "zero TChan = VNil"
| "zero TFunc = VNil"
| "zero (TPtr t) = VNil"
| "zero (TSlice t) = VNil"
| "zero (TArray n t) = VArray (replicate n (zero t))"
| "zero (TMap k t) = VNil"
| "zero (TStruct fs) = VStruct (map (\<lambda>f. zero (snd (snd f))) fs)"
| "zero TInterface = VNil"
| "zero (TNamed n t) = zero t"

text \<open>The elements of a slice value; the nil slice has none.\<close>

definition sliceElems :: "val \<Rightarrow> val list" where
  "sliceElems v = (case v of VSlice xs \<Rightarrow> xs | _ \<Rightarrow> [])"

text \<open>The entries of a map value; the nil map has none.\<close>

definition mapEntries :: "val \<Rightarrow> (string \<times> val) list" where
  "mapEntries v = (case v of VMap es \<Rightarrow> es | _ \<Rightarrow> [])"

text \<open>\<open>Value.IsNil\<close> panics on a kind that cannot be nil.\<close>

definition isNil :: "ty \<Rightarrow> val \<Rightarrow> error + bool" where
  "isNil t v =
     (if kindOf t \<in> {KChan, KFunc, KInterface, KMap, KPointer, KSlice}
      then Inr (v = VNil)
      else Inl (Panic ''reflect: call of reflect.Value.IsNil on a kind that cannot be nil''))"

text \<open>
  \<open>Value.Interface\<close>: the dynamic type and value; for a value of interface kind these
  are the ones the interface holds.
\<close>

definition dynamicOf :: "ty \<Rightarrow> val \<Rightarrow> (ty \<times> val) option" where
  "dynamicOf t v =
     (if kindOf t = KInterface
      then (case v of VIface dt dv \<Rightarrow> Some (dt, dv) | _ \<Rightarrow> None)
      else Some (t, v))"

text \<open>\<open>reflect.ValueOf\<close> of an interface value read from a map: invalid for nil.\<close>

definition valueOf :: "val option \<Rightarrow> (ty \<times> val) option" where
  "valueOf i = (case i of Some (VIface dt dv) \<Rightarrow> Some (dt, dv) | _ \<Rightarrow> None)"

text \<open>\<open>m[k] = v\<close> on the entries of a map.\<close>

fun map_set :: "(string \<times> 'a) list \<Rightarrow> string \<Rightarrow> 'a \<Rightarrow> (string \<times> 'a) list" where
  "map_set [] k v = [(k, v)]"
| "map_set ((k', v') # m) k v = (if k' = k then (k, v) # m else (k', v') # map_set m k v)"

text \<open>
  Settability.  A \<open>reflect.Value\<close> is addressable when it was reached through a
  pointer, as an element of a slice or as a field of an addressable struct; a value
  obtained from \<open>MapIndex\<close> or from the \<open>Elem\<close> of an interface is a copy and is not.
  Every \<open>Set\<close> method panics on a value that is not addressable.  The functions below
  carry the flag as \<open>addr\<close>.  Maps and pointers are references: a change made through
  a copy of the reference is a change of the shared map or pointee, so the updated
  value is returned in either case.
\<close>

definition setValue :: "bool \<Rightarrow> val \<Rightarrow> val \<Rightarrow> val \<times> error option" where
  "setValue addr v new =
     (if addr then (new, None)
      else (v, Some (Panic ''reflect: reflect.Value.Set using unaddressable value'')))"

text \<open>A field is exported when its name starts with an upper-case (ASCII) letter.\<close>

definition exported :: "string \<Rightarrow> bool" where
  "exported name = (case name of [] \<Rightarrow> False | c # cs \<Rightarrow> CHR ''A'' \<le> c \<and> c \<le> CHR ''Z'')"

section \<open>The environment: methods, library and runtime choices\<close>

text \<open>
  What the package calls but does not define is a parameter of the model:
  \<^item> the \<open>UnmarshalForm\<close> and \<open>MarshalForm\<close> methods of the defined types, by type name,
    each with its receiver kind.  An \<open>UnmarshalForm\<close> takes the receiver and the text and
    returns the receiver afterwards and its error; a \<open>MarshalForm\<close> is taken not to
    change its receiver.  A method reached through a nil pointer is taken to panic;
  \<^item> \<open>strconv.ParseFloat\<close>, which yields the text of the float or fails;
  \<^item> the order in which the runtime visits a map: \<open>MapKeys\<close> for
    \<open>reflect.Value.MapKeys\<close>, from the keys of the map to the keys in the order returned,
    and \<open>rangeValues\<close> for the \<open>range\<close> over \<open>url.Values\<close>.  Both return what they
    are given in some order (\<open>fairOrder\<close>).  The runtime chooses the order anew at every
    call, so \<open>MapKeys\<close> also takes the place of the map in the value that is encoded:
    the names of the struct fields, the map keys and the positions in slices and arrays that
    lead to it from the root.  No two maps of one value have the same place, so every
    choice of the runtime in one call of \<open>Marshal\<close> is one \<open>MapKeys\<close>;
  \<^item> \<open>TypeString\<close> for \<open>reflect.Type.String\<close>, the text of a type, which \<open>ty\<close> does
    not determine (\<open>int\<close> and \<open>int64\<close> are both \<open>TInt 64\<close>).
\<close>

datatype recv = ByValue | ByPointer

type_synonym Values = "(string \<times> string list) list"

record env =
  unmarshalers :: "string \<Rightarrow> (recv \<times> (val \<Rightarrow> string \<Rightarrow> val \<times> error option)) option"
  marshalers :: "string \<Rightarrow> (recv \<times> (val \<Rightarrow> error + string)) option"
  ParseFloat :: "string \<Rightarrow> nat \<Rightarrow> string option"
  MapKeys :: "string list \<Rightarrow> string list \<Rightarrow> string list"
  rangeValues :: "Values \<Rightarrow> Values"
  TypeString :: "ty \<Rightarrow> string"

definition fairOrder :: "env \<Rightarrow> bool" where
  "fairOrder env \<longleftrightarrow>
     (\<forall>pos ks. mset (MapKeys env pos ks) = mset ks) \<and>
     (\<forall>vs. mset (rangeValues env vs) = mset vs)"

text \<open>
  An environment without methods that visits every map in the order of its list.  Its
  \<open>TypeString\<close> is an example that names a few types.
\<close>

definition basicTypeString :: "ty \<Rightarrow> string" where
  "basicTypeString t =
     (case t of
        TString \<Rightarrow> ''string''
      | TBool \<Rightarrow> ''bool''
      | TInterface \<Rightarrow> ''interface {}''
      | TNamed n u \<Rightarrow> n
      | TInt b \<Rightarrow> ''int''
      | TUint b \<Rightarrow> ''uint''
      | _ \<Rightarrow> ''T'')"

definition plainEnv :: env where
  "plainEnv = \<lparr>unmarshalers = (\<lambda>n. None), marshalers = (\<lambda>n. None),
               ParseFloat = (\<lambda>s b. None), MapKeys = (\<lambda>pos ks. ks), rangeValues = (\<lambda>vs. vs),
               TypeString = basicTypeString\<rparr>"

section \<open>Struct tags (tags.go)\<close>

record tag =
  Name :: string
  Omit :: bool
  Ignore :: bool

definition parseTag :: "string \<Rightarrow> tag" where
  "parseTag str0 =
     (let str = TrimSpace str0 in
      if str = ''-'' then \<lparr>Name = [], Omit = False, Ignore = True\<rparr>
      else
        (let parts = Split str CHR '','' in
         if parts = [] then \<lparr>Name = [], Omit = False, Ignore = True\<rparr>
         else
           (let name = TrimSpace (hd parts);
                t = (if name = ''-'' then \<lparr>Name = [], Omit = False, Ignore = True\<rparr>
                     else \<lparr>Name = name, Omit = False, Ignore = False\<rparr>)
            in foldl (\<lambda>t p.
                        if TrimSpace p = ''omitempty'' then t\<lparr>Omit := True\<rparr>
                        else if TrimSpace p = ''ignore'' then t\<lparr>Ignore := True\<rparr>
                        else t)
                 t (tl parts))))"

text \<open>
  \<open>tags\<close> computes the tag of every field of a struct type.  The cache in front of it
  stores the result of this pure computation under the type; a call returns the same tags
  with and without it.  The cache itself is modelled below, for concurrent calls.
\<close>

definition tags :: "ty \<Rightarrow> tag list" where
  "tags t =
     map (\<lambda>(fname, ftag, ft).
            let tg = parseTag ftag
            in if \<not> Ignore tg \<and> Name tg = [] then tg\<lparr>Name := fname\<rparr> else tg)
         (fieldsOf t)"

section \<open>Decoding (decode.go)\<close>

subsection \<open>The Unmarshaler hook\<close>

text \<open>
  \<open>unmarshalerOfConcrete env t v\<close> is the type assertion \<open>x.(Unmarshaler)\<close> for an
  interface value \<open>x\<close> holding the value \<open>v\<close> of the concrete type \<open>t\<close>: it succeeds
  when the method set of \<open>t\<close> has \<open>UnmarshalForm\<close>.  The method set of a defined type
  holds its value-receiver methods, the one of a pointer to it holds all its methods.
  The result runs the method on the text and returns \<open>v\<close> afterwards.
\<close>

definition unmarshalerOfConcrete ::
  "env \<Rightarrow> ty \<Rightarrow> val \<Rightarrow> (string \<Rightarrow> val \<times> error option) option" where
  "unmarshalerOfConcrete env t v =
     (case t of
        TNamed n u \<Rightarrow>
          (case unmarshalers env n of
             Some (ByValue, f) \<Rightarrow> Some (\<lambda>s. (v, snd (f v s)))
           | _ \<Rightarrow> None)
      | TPtr (TNamed n u) \<Rightarrow>
          (case unmarshalers env n of
             Some (r, f) \<Rightarrow>
               Some (\<lambda>s. case v of
                           VPtr x \<Rightarrow>
                             (case r of
                                ByPointer \<Rightarrow> (case f x s of (x', e) \<Rightarrow> (VPtr x', e))
                              | ByValue \<Rightarrow> (v, snd (f x s)))
                         | _ \<Rightarrow> (v, Some (Panic ''nil pointer dereference'')))
           | None \<Rightarrow> None)
      | _ \<Rightarrow> None)"

text \<open>\<open>v.Interface().(Unmarshaler)\<close> for a reflected value of type \<open>t\<close>.\<close>

definition unmarshalerOf ::
  "env \<Rightarrow> ty \<Rightarrow> val \<Rightarrow> (string \<Rightarrow> val \<times> error option) option" where
  "unmarshalerOf env t v =
     (if kindOf t = KInterface
      then (case v of
              VIface dt dv \<Rightarrow>
                (case unmarshalerOfConcrete env dt dv of
                   Some u \<Rightarrow> Some (\<lambda>s. case u s of (dv', e) \<Rightarrow> (VIface dt dv', e))
                 | None \<Rightarrow> None)
            | _ \<Rightarrow> None)
      else unmarshalerOfConcrete env t v)"

text \<open>
  \<open>asUnmarshaler\<close>: first \<open>v.Addr().Interface()\<close> when \<open>v\<close> is addressable (a pointer to
  \<open>v\<close>), then \<open>v.Interface()\<close>.
\<close>

definition asUnmarshaler ::
  "env \<Rightarrow> bool \<Rightarrow> ty \<Rightarrow> val \<Rightarrow> (string \<Rightarrow> val \<times> error option) option" where
  "asUnmarshaler env addr t v =
     (case (if addr then unmarshalerOfConcrete env (TPtr t) (VPtr v) else None) of
        Some u \<Rightarrow> Some (\<lambda>s. case u s of (p, e) \<Rightarrow> ((case p of VPtr v' \<Rightarrow> v' | _ \<Rightarrow> v), e))
      | None \<Rightarrow> unmarshalerOf env t v)"

subsection \<open>Scalars\<close>

text \<open>
  \<open>strconv.ParseUint\<close> and \<open>strconv.ParseInt\<close> in base 10 for a bit size: a non-empty
  run of decimal digits, for \<open>ParseInt\<close> after an optional sign, within the range of
  the bit size; \<open>None\<close> is the syntax or range error.
\<close>

definition isDigit :: "char \<Rightarrow> bool" where
  "isDigit c \<longleftrightarrow> CHR ''0'' \<le> c \<and> c \<le> CHR ''9''"

fun digits :: "nat \<Rightarrow> string \<Rightarrow> nat option" where
  "digits acc [] = Some acc"
| "digits acc (c # cs) =
     (if isDigit c then digits (acc * 10 + (of_char c - 48)) cs else None)"

definition ParseUint :: "string \<Rightarrow> nat \<Rightarrow> nat option" where
  "ParseUint s bitSize =
     (if s = [] then None
      else (case digits 0 s of
              None \<Rightarrow> None
            | Some n \<Rightarrow> if n < 2 ^ bitSize then Some n else None))"

definition ParseInt :: "string \<Rightarrow> nat \<Rightarrow> int option" where
  "ParseInt s0 bitSize =
     (if s0 = [] then None
      else
        (let neg = (hd s0 = CHR ''-'');
             s = (if hd s0 = CHR ''+'' \<or> hd s0 = CHR ''-'' then tl s0 else s0)
         in case ParseUint s bitSize of
              None \<Rightarrow> None
            | Some un \<Rightarrow>
                if \<not> neg \<and> un \<ge> 2 ^ (bitSize - 1) then None
                else if neg \<and> un > 2 ^ (bitSize - 1) then None
                else Some (if neg then - int un else int un)))"

definition ParseBool :: "string \<Rightarrow> bool option" where
  "ParseBool s =
     (if s \<in> {''1'', ''t'', ''T'', ''TRUE'', ''true'', ''True''} then Some True
      else if s \<in> {''0'', ''f'', ''F'', ''FALSE'', ''false'', ''False''} then Some False
      else None)"

definition setInt :: "bool \<Rightarrow> ty \<Rightarrow> val \<Rightarrow> string \<Rightarrow> val \<times> error option" where
  "setInt addr t v s =
     (if s = [] then setValue addr v (VInt 0)
      else (case ParseInt s (bitsOf t) of
              None \<Rightarrow> (v, Some SetIntError)
            | Some i \<Rightarrow> setValue addr v (VInt i)))"

definition setUint :: "bool \<Rightarrow> ty \<Rightarrow> val \<Rightarrow> string \<Rightarrow> val \<times> error option" where
  "setUint addr t v s =
     (if s = [] then setValue addr v (VUint 0)
      else (case ParseUint s (bitsOf t) of
              None \<Rightarrow> (v, Some ParseUintError)
            | Some i \<Rightarrow> setValue addr v (VUint i)))"

definition setFloat :: "env \<Rightarrow> bool \<Rightarrow> ty \<Rightarrow> val \<Rightarrow> string \<Rightarrow> val \<times> error option" where
  "setFloat env addr t v s =
     (if s = [] then setValue addr v (VFloat ''0'')
      else (case ParseFloat env s (bitsOf t) of
              None \<Rightarrow> (v, Some ParseFloatError)
            | Some f \<Rightarrow> setValue addr v (VFloat f)))"

definition parseBool :: "bool \<Rightarrow> val \<Rightarrow> string \<Rightarrow> val \<times> error option" where
  "parseBool addr v s =
     (if s = [] then setValue addr v (VBool False)
      else (case ParseBool s of
              None \<Rightarrow> (v, Some ParseBoolError)
            | Some b \<Rightarrow> setValue addr v (VBool b)))"

definition setScalar :: "env \<Rightarrow> bool \<Rightarrow> ty \<Rightarrow> val \<Rightarrow> string \<Rightarrow> val \<times> error option" where
  "setScalar env addr t v val =
     (case kindOf t of
        KString \<Rightarrow> setValue addr v (VString val)
      | KInt \<Rightarrow> setInt addr t v val
      | KUint \<Rightarrow> setUint addr t v val
      | KFloat \<Rightarrow> setFloat env addr t v val
      | KBool \<Rightarrow> parseBool addr v val
      | _ \<Rightarrow> (v, Some UnsupportedType))"

definition assignLeaf :: "env \<Rightarrow> bool \<Rightarrow> ty \<Rightarrow> val \<Rightarrow> string \<Rightarrow> val \<times> error option" where
  "assignLeaf env addr t v val =
     (case asUnmarshaler env addr t v of
        Some u \<Rightarrow> u val
      | None \<Rightarrow> setScalar env addr t v val)"

subsection \<open>Pointers and struct fields\<close>

text \<open>
  \<open>deref\<close> allocates behind a nil pointer (a \<open>Set\<close>, so the pointer must be addressable)
  and yields the pointee, which is addressable.  \<open>reref t x\<close> puts the pointee \<open>x\<close>,
  as it is after the work on it, back behind the pointer of type \<open>t\<close>.
\<close>

definition deref :: "bool \<Rightarrow> ty \<Rightarrow> val \<Rightarrow> error + bool \<times> ty \<times> val" where
  "deref addr t v =
     (if kindOf t = KPointer then
        (case v of
           VPtr x \<Rightarrow> Inr (True, elemOf t, x)
         | _ \<Rightarrow>
             if addr then Inr (True, elemOf t, zero (elemOf t))
             else Inl (Panic ''reflect: reflect.Value.Set using unaddressable value''))
      else Inr (addr, t, v))"

definition reref :: "ty \<Rightarrow> val \<Rightarrow> val" where
  "reref t x = (if kindOf t = KPointer then VPtr x else x)"

fun findField :: "tag list \<Rightarrow> string \<Rightarrow> nat \<Rightarrow> nat option" where
  "findField [] key i = None"
| "findField (t # ts) key i =
     (if Ignore t then findField ts key (Suc i)
      else if Name t = key then Some i
      else findField ts key (Suc i))"

definition findStructField :: "ty \<Rightarrow> string \<Rightarrow> nat option" where
  "findStructField t key = findField (tags t) key 0"

subsection \<open>Type inference for interface slots\<close>

text \<open>
  The slice and the map that \<open>inferSliceValue\<close> and \<open>inferMapValue\<close> start from.  The
  argument is a \<open>reflect.Value\<close>: \<open>None\<close> when it is invalid, else its type and value.
  The type assertions panic on any other dynamic type; a nil map held by a non-nil
  interface passes the assertion and is \<open>None\<close> here.
\<close>

definition existingSlice :: "(ty \<times> val) option \<Rightarrow> error + val list" where
  "existingSlice v =
     (case v of
        None \<Rightarrow> Inr []
      | Some (t, x) \<Rightarrow>
          (case isNil t x of
             Inl e \<Rightarrow> Inl e
           | Inr True \<Rightarrow> Inr []
           | Inr False \<Rightarrow>
               (case dynamicOf t x of
                  Some (TSlice TInterface, sv) \<Rightarrow> Inr (sliceElems sv)
                | _ \<Rightarrow> Inl (Panic ''interface conversion: not []interface {}''))))"

definition existingMap :: "(ty \<times> val) option \<Rightarrow> error + (string \<times> val) list option" where
  "existingMap v =
     (case v of
        None \<Rightarrow> Inr (Some [])
      | Some (t, x) \<Rightarrow>
          (case isNil t x of
             Inl e \<Rightarrow> Inl e
           | Inr True \<Rightarrow> Inr (Some [])
           | Inr False \<Rightarrow>
               (case dynamicOf t x of
                  Some (TMap TString TInterface, VMap es) \<Rightarrow> Inr (Some es)
                | Some (TMap TString TInterface, VNil) \<Rightarrow> Inr None
                | _ \<Rightarrow> Inl (Panic ''interface conversion: not map[string]interface {}''))))"

fun inferInterfaceValue ::
  "(ty \<times> val) option \<Rightarrow> pathSegment list \<Rightarrow> string \<Rightarrow> error + ty \<times> val"
and inferSliceValue ::
  "(ty \<times> val) option \<Rightarrow> pathSegment list \<Rightarrow> string \<Rightarrow> error + ty \<times> val"
and inferMapValue ::
  "(ty \<times> val) option \<Rightarrow> pathSegment \<Rightarrow> pathSegment list \<Rightarrow> string \<Rightarrow> error + ty \<times> val"
where
  "inferInterfaceValue v path val =
     (case path of
        [] \<Rightarrow> Inr (TString, VString val)
      | seg # rest \<Rightarrow>
          if Index seg then inferSliceValue v path val
          else inferMapValue v seg path val)"
| "inferSliceValue v path val =
     (case path of
        [] \<Rightarrow> Inl (Panic ''slice bounds out of range'')
      | seg # rest \<Rightarrow>
          (case existingSlice v of
             Inl e \<Rightarrow> Inl e
           | Inr slice \<Rightarrow>
               (case inferInterfaceValue None rest val of
                  Inl e \<Rightarrow> Inl e
                | Inr (et, ev) \<Rightarrow> Inr (TSlice TInterface, VSlice (slice @ [VIface et ev])))))"
| "inferMapValue v seg path val =
     (case path of
        [] \<Rightarrow> Inl (Panic ''slice bounds out of range'')
      | seg0 # rest \<Rightarrow>
          (case existingMap v of
             Inl e \<Rightarrow> Inl e
           | Inr m \<Rightarrow>
               (case inferInterfaceValue
                       (valueOf (case m of None \<Rightarrow> None | Some es \<Rightarrow> map_of es (Key seg)))
                       rest val of
                  Inl e \<Rightarrow> Inl e
                | Inr (et, ev) \<Rightarrow>
                    (case m of
                       None \<Rightarrow> Inl (Panic ''assignment to entry in nil map'')
                     | Some es \<Rightarrow>
                         Inr (TMap TString TInterface,
                              VMap (map_set es (Key seg) (VIface et ev)))))))"

subsection \<open>The assignment engine\<close>

text \<open>
  Every function takes the addressability flag, the type and the value of the
  \<open>reflect.Value\<close> it works on and returns the value afterwards together with the
  error, if any: what was changed before an error is returned stays changed.

  The recursion of \<open>assign\<close> either consumes a path segment or, at an interface,
  descends into the value the interface holds; \<open>idepth\<close> counts the interfaces on the
  way down.
\<close>

fun idepth :: "val \<Rightarrow> nat" where
  "idepth (VIface t v) = Suc (idepth v)"
| "idepth (VPtr v) = idepth v"
| "idepth v = 0"

lemma idepth_zero: "idepth (zero t) = 0"
  by (induction t) auto

lemma idepth_deref: "deref addr t v = Inr (a', t', v') \<Longrightarrow> idepth v' \<le> idepth v"
  by (auto simp: deref_def idepth_zero split: if_splits val.splits)

text \<open>
  \<open>assignMapValue\<close> looks the entry up with \<open>v.MapIndex(reflect.ValueOf(seg.Key))\<close>, which
  panics unless a \<open>string\<close> can be assigned to the key type of the map: the key type is
  \<open>string\<close> itself or an interface type.  A defined type with underlying type \<open>string\<close>
  passes the check of \<open>Unmarshal\<close> on the kind of the key and panics here.
\<close>

definition keyAssignable :: "ty \<Rightarrow> bool" where
  "keyAssignable t \<longleftrightarrow> keyOf t = TString \<or> kindOf (keyOf t) = KInterface"

function assign ::
  "env \<Rightarrow> bool \<Rightarrow> ty \<Rightarrow> val \<Rightarrow> pathSegment list \<Rightarrow> string \<Rightarrow> val \<times> error option"
and assignStructField ::
  "env \<Rightarrow> bool \<Rightarrow> ty \<Rightarrow> val \<Rightarrow> string \<Rightarrow> pathSegment list \<Rightarrow> string \<Rightarrow> val \<times> error option"
and assignMapValue ::
  "env \<Rightarrow> bool \<Rightarrow> ty \<Rightarrow> val \<Rightarrow> pathSegment \<Rightarrow> pathSegment list \<Rightarrow> string \<Rightarrow> val \<times> error option"
and assignSliceValue ::
  "env \<Rightarrow> bool \<Rightarrow> ty \<Rightarrow> val \<Rightarrow> pathSegment \<Rightarrow> pathSegment list \<Rightarrow> string \<Rightarrow> val \<times> error option"
and assignInterfaceValue ::
  "env \<Rightarrow> bool \<Rightarrow> ty \<Rightarrow> val \<Rightarrow> pathSegment list \<Rightarrow> string \<Rightarrow> val \<times> error option"
where
  "assign env addr t0 v0 path val =
     (case deref addr t0 v0 of
        Inl e \<Rightarrow> (v0, Some e)
      | Inr (a, t, v) \<Rightarrow>
          (case (case path of
                   [] \<Rightarrow> assignLeaf env a t v val
                 | seg # rest \<Rightarrow>
                     (case kindOf t of
                        KStruct \<Rightarrow> assignStructField env a t v (Key seg) rest val
                      | KMap \<Rightarrow> assignMapValue env a t v seg rest val
                      | KSlice \<Rightarrow> assignSliceValue env a t v seg rest val
                      | KInterface \<Rightarrow> assignInterfaceValue env a t v path val
                      | _ \<Rightarrow> (v, Some CannotAssign))) of
             (v', err) \<Rightarrow> (reref t0 v', err)))"
| "assignStructField env addr t v key path val =
     (case findStructField t key of
        None \<Rightarrow> (v, Some (UnknownField key))
      | Some i \<Rightarrow>
          (case v of
             VStruct fvs \<Rightarrow>
               if i < length fvs \<and> i < length (fieldsOf t) \<and> addr \<and> exported (fst (fieldsOf t ! i))
               then (case assign env True (snd (snd (fieldsOf t ! i))) (fvs ! i) path val of
                       (fv', err) \<Rightarrow> (VStruct (fvs[i := fv']), err))
               else (v, Some (UnknownField key))
           | _ \<Rightarrow> (v, Some (UnknownField key))))"
| "assignMapValue env addr t v0 seg path val =
     (if v0 = VNil \<and> \<not> addr
      then (v0, Some (Panic ''reflect: reflect.Value.Set using unaddressable value''))
      else if \<not> keyAssignable t
      then (VMap (mapEntries v0),
            Some (Panic ''reflect.Value.MapIndex: value of type string is not assignable''))
      else
        (let m = mapEntries v0;
             key = Key seg;
             elem = map_of m key;
             elemType = elemOf t
         in case kindOf elemType of
              KInterface \<Rightarrow>
                (case inferInterfaceValue (map_option (Pair elemType) elem) path val of
                   Inl e \<Rightarrow> (VMap m, Some e)
                 | Inr (nt, nv) \<Rightarrow> (VMap (map_set m key (VIface nt nv)), None))
            | KSlice \<Rightarrow>
                (let slice = (case elem of Some s \<Rightarrow> sliceElems s | None \<Rightarrow> [])
                 in case assignLeaf env True (elemOf elemType) (zero (elemOf elemType)) val of
                      (newElem, Some e) \<Rightarrow> (VMap m, Some e)
                    | (newElem, None) \<Rightarrow>
                        (VMap (map_set m key (VSlice (slice @ [newElem]))), None))
            | _ \<Rightarrow>
                (let fresh = (elem = None);
                     el = (case elem of Some x \<Rightarrow> x | None \<Rightarrow> zero elemType)
                 in case deref fresh elemType el of
                      Inl e \<Rightarrow> (VMap m, Some e)
                    | Inr (a', t', v') \<Rightarrow>
                        (case assign env a' t' v' path val of
                           (r, Some e) \<Rightarrow>
                             (VMap (if fresh then m else map_set m key (reref elemType r)),
                              Some e)
                         | (r, None) \<Rightarrow> (VMap (map_set m key (reref elemType r)), None)))))"
| "assignSliceValue env addr t v seg path val =
     (if \<not> Index seg then (v, Some ExpectedSliceIndex)
      else
        (let elemType = elemOf t
         in case (if kindOf elemType = KInterface
                  then (case inferInterfaceValue None path val of
                          Inl e \<Rightarrow> (VNil, Some e)
                        | Inr (nt, nv) \<Rightarrow> (VIface nt nv, None))
                  else (case path of
                          [] \<Rightarrow> assignLeaf env True elemType (zero elemType) val
                        | _ # _ \<Rightarrow> assign env True elemType (zero elemType) path val)) of
              (newElem, Some e) \<Rightarrow> (v, Some e)
            | (newElem, None) \<Rightarrow> setValue addr v (VSlice (sliceElems v @ [newElem]))))"
| "assignInterfaceValue env addr t v path val =
     (case v of
        VIface dt dv \<Rightarrow>
          (case assign env False dt dv path val of (r, err) \<Rightarrow> (VIface dt r, err))
      | _ \<Rightarrow>
          (case inferInterfaceValue (Some (t, v)) path val of
             Inl e \<Rightarrow> (v, Some e)
           | Inr (nt, nv) \<Rightarrow> setValue addr v (VIface nt nv)))"
  by pat_completeness auto
termination
  apply (relation "inv_image (less_than <*lex*> less_than)
     (\<lambda>x. case x of
         Inl (Inl (env, addr, t, v, path, val)) \<Rightarrow> (2 * length path, 2 * idepth v + 1)
       | Inl (Inr (env, addr, t, v, key, path, val)) \<Rightarrow> (2 * length path + 1, 0)
       | Inr (Inl (env, addr, t, v, seg, path, val)) \<Rightarrow> (2 * length path + 1, 0)
       | Inr (Inr (Inl (env, addr, t, v, seg, path, val))) \<Rightarrow> (2 * length path + 1, 0)
       | Inr (Inr (Inr (env, addr, t, v, path, val))) \<Rightarrow> (2 * length path, 2 * idepth v))")
  apply (auto dest!: idepth_deref[OF sym] idepth_deref)
  done

declare assign.simps [simp del]
declare assignStructField.simps [simp del]
declare assignMapValue.simps [simp del]
declare assignSliceValue.simps [simp del]
declare assignInterfaceValue.simps [simp del]

subsection \<open>The flat multimap (net/url)\<close>

text \<open>
  \<open>url.Values\<close> maps a key to the list of its values, in the order they were added.
  \<open>Add\<close> is \<open>Values.Add\<close>; \<open>QueryUnescape\<close> and \<open>ParseQuery\<close> follow the library:
  pairs are separated by \<open>&\<close>, key and value by the first \<open>=\<close>, a pair with a
  semicolon or a bad escape is dropped and reported at the end, an empty pair is skipped.
\<close>

fun Add :: "Values \<Rightarrow> string \<Rightarrow> string \<Rightarrow> Values" where
  "Add [] key value = [(key, [value])]"
| "Add ((k, xs) # m) key value =
     (if k = key then (k, xs @ [value]) # m else (k, xs) # Add m key value)"

definition ishex :: "char \<Rightarrow> bool" where
  "ishex c \<longleftrightarrow> (CHR ''0'' \<le> c \<and> c \<le> CHR ''9'') \<or> (CHR ''a'' \<le> c \<and> c \<le> CHR ''f'')
     \<or> (CHR ''A'' \<le> c \<and> c \<le> CHR ''F'')"

definition unhex :: "char \<Rightarrow> nat" where
  "unhex c =
     (if CHR ''0'' \<le> c \<and> c \<le> CHR ''9'' then of_char c - 48
      else if CHR ''a'' \<le> c \<and> c \<le> CHR ''f'' then of_char c - 97 + 10
      else if CHR ''A'' \<le> c \<and> c \<le> CHR ''F'' then of_char c - 65 + 10
      else 0)"

fun QueryUnescape :: "string \<Rightarrow> string option" where
  "QueryUnescape [] = Some []"
| "QueryUnescape (c # cs) =
     (if c = CHR ''%'' then
        (case cs of
           h1 # h2 # rest \<Rightarrow>
             if ishex h1 \<and> ishex h2
             then map_option ((#) (char_of (unhex h1 * 16 + unhex h2))) (QueryUnescape rest)
             else None
         | _ \<Rightarrow> None)
      else if c = CHR ''+'' then map_option ((#) CHR '' '') (QueryUnescape cs)
      else map_option ((#) c) (QueryUnescape cs))"

function parseQuery :: "Values \<Rightarrow> error option \<Rightarrow> string \<Rightarrow> Values \<times> error option" where
  "parseQuery m err query =
     (if query = [] then (m, err)
      else
        (case Cut query CHR ''&'' of
           (key, query') \<Rightarrow>
             if CHR '';'' \<in> set key then parseQuery m (Some InvalidFormData) query'
             else if key = [] then parseQuery m err query'
             else
               (case Cut key CHR ''='' of
                  (key1, value) \<Rightarrow>
                    (case QueryUnescape key1 of
                       None \<Rightarrow>
                         parseQuery m (if err = None then Some InvalidFormData else err) query'
                     | Some k \<Rightarrow>
                         (case QueryUnescape value of
                            None \<Rightarrow>
                              parseQuery m (if err = None then Some InvalidFormData else err)
                                query'
                          | Some x \<Rightarrow> parseQuery (Add m k x) err query')))))"
  by pat_completeness auto
termination
  by (relation "measure (\<lambda>(m, err, query). length query)") (auto dest: Cut_shorter[OF sym])

declare parseQuery.simps [simp del]

definition ParseQuery :: "string \<Rightarrow> Values \<times> error option" where
  "ParseQuery query = parseQuery [] None query"

subsection \<open>Unmarshal\<close>

text \<open>
  \<open>assignAll\<close> is the inner loop of \<open>unmarshalForm\<close> (over the values of one key),
  \<open>unmarshalForm\<close> the outer one, over the entries in the order the runtime visits them.
\<close>

fun assignAll ::
  "env \<Rightarrow> bool \<Rightarrow> ty \<Rightarrow> val \<Rightarrow> pathSegment list \<Rightarrow> string list \<Rightarrow> val \<times> error option" where
  "assignAll env addr t v path [] = (v, None)"
| "assignAll env addr t v path (val # vals) =
     (case assign env addr t v path val of
        (v', Some e) \<Rightarrow> (v', Some e)
      | (v', None) \<Rightarrow> assignAll env addr t v' path vals)"

fun unmarshalForm_loop :: "env \<Rightarrow> bool \<Rightarrow> ty \<Rightarrow> val \<Rightarrow> Values \<Rightarrow> val \<times> error option" where
  "unmarshalForm_loop env addr t v [] = (v, None)"
| "unmarshalForm_loop env addr t v ((rawKey, vals) # values) =
     (case parseKey rawKey of
        Inl e \<Rightarrow> (v, Some e)
      | Inr path \<Rightarrow>
          (case assignAll env addr t v path vals of
             (v', Some e) \<Rightarrow> (v', Some e)
           | (v', None) \<Rightarrow> unmarshalForm_loop env addr t v' values))"

definition unmarshalForm :: "env \<Rightarrow> Values \<Rightarrow> bool \<Rightarrow> ty \<Rightarrow> val \<Rightarrow> val \<times> error option" where
  "unmarshalForm env values addr t v = unmarshalForm_loop env addr t v (rangeValues env values)"

text \<open>
  The argument \<open>v\<close> of \<open>Unmarshal\<close> is an interface value: \<open>None\<close> for nil, else its
  dynamic type and value.  The result is that argument afterwards and the error.
\<close>

definition Unmarshal ::
  "env \<Rightarrow> string \<Rightarrow> (ty \<times> val) option \<Rightarrow> (ty \<times> val) option \<times> error option" where
  "Unmarshal env data v =
     (if data = [] then (v, Some EmptyInput)
      else
        (case v of
           None \<Rightarrow> (v, Some InvalidUnmarshalError)
         | Some (pt, pv) \<Rightarrow>
             if kindOf pt \<noteq> KPointer \<or> pv = VNil then (v, Some InvalidUnmarshalError)
             else
               (let t = elemOf pt; rv = (case pv of VPtr x \<Rightarrow> x | _ \<Rightarrow> VNil) in
                if kindOf t \<noteq> KStruct \<and> kindOf t \<noteq> KMap then (v, Some TopLevelNotStructOrMap)
                else if kindOf t = KMap \<and> kindOf (keyOf t) \<noteq> KString
                then (v, Some MapKeysNotStrings)
                else
                  (case ParseQuery (TrimSpace data) of
                     (values, Some e) \<Rightarrow> (v, Some InvalidFormData)
                   | (values, None) \<Rightarrow>
                       (case unmarshalForm env values True t rv of
                          (rv', err) \<Rightarrow> (Some (pt, VPtr rv'), err))))))"

definition DecodeString ::
  "env \<Rightarrow> string \<Rightarrow> (ty \<times> val) option \<Rightarrow> (ty \<times> val) option \<times> error option" where
  "DecodeString env data v = Unmarshal env data v"

section \<open>Encoding\<close>

subsection \<open>Paths, scalars and the Marshaler hook\<close>

text \<open>\<open>renderPath\<close> reads \<open>path[0]\<close>, which panics on the empty path.\<close>

definition renderPath :: "string list \<Rightarrow> error + string" where
  "renderPath path =
     (case path of
        [] \<Rightarrow> Inl (Panic ''index out of range'')
      | p0 # ps \<Rightarrow>
          Inr (p0 @ concat (map (\<lambda>p. if p = [] then ''[]'' else ''['' @ p @ '']'') ps)))"

definition digitChar :: "nat \<Rightarrow> char" where
  "digitChar n = char_of (48 + n)"

function FormatUint :: "nat \<Rightarrow> string" where
  "FormatUint n =
     (if n < 10 then [digitChar n] else FormatUint (n div 10) @ [digitChar (n mod 10)])"
  by pat_completeness auto
termination
  by (relation "measure id") auto

declare FormatUint.simps [simp del]

definition FormatInt :: "int \<Rightarrow> string" where
  "FormatInt i = (if i < 0 then CHR ''-'' # FormatUint (nat (- i)) else FormatUint (nat i))"

definition FormatBool :: "bool \<Rightarrow> string" where
  "FormatBool b = (if b then ''true'' else ''false'')"

text \<open>\<open>getScalar\<close> panics on every kind it has no text for.\<close>

definition getScalar :: "ty \<Rightarrow> val \<Rightarrow> error + string" where
  "getScalar t v =
     (case kindOf t of
        KString \<Rightarrow> (case v of VString s \<Rightarrow> Inr s | _ \<Rightarrow> Inl (Panic ''ill-typed value''))
      | KInt \<Rightarrow> (case v of VInt i \<Rightarrow> Inr (FormatInt i) | _ \<Rightarrow> Inl (Panic ''ill-typed value''))
      | KUint \<Rightarrow> (case v of VUint n \<Rightarrow> Inr (FormatUint n) | _ \<Rightarrow> Inl (Panic ''ill-typed value''))
      | KFloat \<Rightarrow> (case v of VFloat f \<Rightarrow> Inr f | _ \<Rightarrow> Inl (Panic ''ill-typed value''))
      | KBool \<Rightarrow> (case v of VBool b \<Rightarrow> Inr (FormatBool b) | _ \<Rightarrow> Inl (Panic ''ill-typed value''))
      | _ \<Rightarrow> Inl (Panic ''form: unsupported type''))"

definition isEmptyValue :: "ty \<Rightarrow> val \<Rightarrow> bool" where
  "isEmptyValue t v =
     (case kindOf t of
        KArray \<Rightarrow> (case v of VArray xs \<Rightarrow> xs = [] | _ \<Rightarrow> True)
      | KMap \<Rightarrow> (case v of VMap es \<Rightarrow> es = [] | _ \<Rightarrow> True)
      | KSlice \<Rightarrow> sliceElems v = []
      | KString \<Rightarrow> v = VString []
      | KBool \<Rightarrow> v = VBool False
      | KInt \<Rightarrow> v = VInt 0
      | KUint \<Rightarrow> v = VUint 0
      | KFloat \<Rightarrow> v = VFloat ''0''
      | KInterface \<Rightarrow> v = VNil
      | KPointer \<Rightarrow> v = VNil
      | _ \<Rightarrow> False)"

text \<open>The type assertion \<open>x.(Marshaler)\<close> and the result of calling the method.\<close>

definition marshalerOfConcrete :: "env \<Rightarrow> ty \<Rightarrow> val \<Rightarrow> (error + string) option" where
  "marshalerOfConcrete env t v =
     (case t of
        TNamed n u \<Rightarrow>
          (case marshalers env n of
             Some (ByValue, f) \<Rightarrow> Some (f v)
           | _ \<Rightarrow> None)
      | TPtr (TNamed n u) \<Rightarrow>
          (case marshalers env n of
             Some (r, f) \<Rightarrow>
               Some (case v of VPtr x \<Rightarrow> f x | _ \<Rightarrow> Inl (Panic ''nil pointer dereference''))
           | None \<Rightarrow> None)
      | _ \<Rightarrow> None)"

definition marshalerOf :: "env \<Rightarrow> ty \<Rightarrow> val \<Rightarrow> (error + string) option" where
  "marshalerOf env t v =
     (if kindOf t = KInterface
      then (case v of VIface dt dv \<Rightarrow> marshalerOfConcrete env dt dv | _ \<Rightarrow> None)
      else marshalerOfConcrete env t v)"

definition asMarshaler :: "env \<Rightarrow> bool \<Rightarrow> ty \<Rightarrow> val \<Rightarrow> (error + string) option" where
  "asMarshaler env addr t v =
     (case (if addr then marshalerOfConcrete env (TPtr t) (VPtr v) else None) of
        Some m \<Rightarrow> Some m
      | None \<Rightarrow> marshalerOf env t v)"

definition marshaler :: "Values \<Rightarrow> string list \<Rightarrow> error + string \<Rightarrow> error + Values" where
  "marshaler out path m =
     (case m of
        Inl e \<Rightarrow> Inl e
      | Inr s \<Rightarrow> (case renderPath path of Inl e \<Rightarrow> Inl e | Inr k \<Rightarrow> Inr (Add out k s)))"

definition marshalScalar :: "Values \<Rightarrow> string list \<Rightarrow> ty \<Rightarrow> val \<Rightarrow> error + Values" where
  "marshalScalar out path t v =
     (case renderPath path of
        Inl e \<Rightarrow> Inl e
      | Inr k \<Rightarrow> (case getScalar t v of Inl e \<Rightarrow> Inl e | Inr s \<Rightarrow> Inr (Add out k s)))"

subsection \<open>The traversal\<close>

text \<open>\<open>elemM\<close> is the step \<open>v = v.Elem()\<close> of \<open>marshalValue\<close> at a non-nil pointer.\<close>

definition elemM :: "bool \<Rightarrow> ty \<Rightarrow> val \<Rightarrow> bool \<times> ty \<times> val" where
  "elemM addr t v =
     (if kindOf t = KPointer
      then (True, elemOf t, (case v of VPtr x \<Rightarrow> x | _ \<Rightarrow> VNil))
      else (addr, t, v))"

fun vsize :: "val \<Rightarrow> nat" where
  "vsize (VPtr x) = Suc (vsize x)"
| "vsize (VIface t x) = Suc (vsize x)"
| "vsize (VSlice xs) = Suc (sum_list (map (\<lambda>x. Suc (vsize x)) xs))"
| "vsize (VArray xs) = Suc (sum_list (map (\<lambda>x. Suc (vsize x)) xs))"
| "vsize (VStruct xs) = Suc (sum_list (map (\<lambda>x. Suc (vsize x)) xs))"
| "vsize (VMap es) = Suc (sum_list (map (\<lambda>e. Suc (vsize (snd e))) es))"
| "vsize v = 0"

lemma vsize_elemM: "(a, t', v') = elemM addr t v \<Longrightarrow> vsize v' \<le> vsize v"
  by (auto simp: elemM_def split: if_splits val.splits)

lemma vsize_map_of:
  "map_of es k = Some mv \<Longrightarrow> Suc (vsize mv) \<le> sum_list (map (\<lambda>e. Suc (vsize (snd e))) es)"
  by (induction es) (auto split: if_splits)

text \<open>
  \<open>marshalMap\<close> appends \<open>k.String()\<close> to the path.  \<open>Value.String\<close> is the key for a key of
  string kind; for any other kind it is the text \<open><T Value>\<close> with the type of the key, the
  same for every key of the map.  \<open>Marshal\<close> checks the key type of the top-level map only.
\<close>

definition keyText :: "env \<Rightarrow> ty \<Rightarrow> string \<Rightarrow> string" where
  "keyText env t k =
     (if kindOf (keyOf t) = KString then k
      else CHR ''<'' # TypeString env (keyOf t) @ '' Value>'')"

text \<open>
  \<open>marshalValue\<close> with the output multimap \<open>out\<close> passed along; \<open>ro\<close> says that the value
  was read from an unexported struct field, on which \<open>Value.Interface\<close> panics, and
  \<open>pos\<close> is the place of the value, which only \<open>MapKeys\<close> looks at.
  \<open>marshalStruct\<close>, \<open>marshalMap\<close> and \<open>marshalSlice\<close> are the loops of the functions of
  these names, with what is still to be visited as their state: the tags, declarations
  and values of the fields, the keys of the map (as \<open>MapKeys\<close> returned them, next to
  the type and the entries of the map), the index and the elements of the slice or array.
  An element of a slice is addressable, an entry of a map and the content of an interface
  are not.
\<close>
function marshalValue ::
  "env \<Rightarrow> Values \<Rightarrow> string list \<Rightarrow> string list \<Rightarrow> bool \<Rightarrow> bool \<Rightarrow> ty \<Rightarrow> val
     \<Rightarrow> error + Values"
and marshalStruct ::
  "env \<Rightarrow> Values \<Rightarrow> string list \<Rightarrow> string list \<Rightarrow> bool \<Rightarrow> tag list
     \<Rightarrow> (string \<times> string \<times> ty) list \<Rightarrow> val list \<Rightarrow> error + Values"
and marshalMap ::
  "env \<Rightarrow> Values \<Rightarrow> string list \<Rightarrow> string list \<Rightarrow> ty \<Rightarrow> (string \<times> val) list \<Rightarrow> string list
     \<Rightarrow> error + Values"
and marshalSlice ::
  "env \<Rightarrow> Values \<Rightarrow> string list \<Rightarrow> string list \<Rightarrow> bool \<Rightarrow> ty \<Rightarrow> nat \<Rightarrow> val list
     \<Rightarrow> error + Values"
where
  "marshalValue env out path pos addr ro t0 v0 =
     (if kindOf t0 = KPointer \<and> v0 = VNil then Inr out
      else
        (case elemM addr t0 v0 of
           (a, t, v) \<Rightarrow>
             if ro then Inl (Panic ''reflect.Value.Interface: value obtained from unexported field'')
             else
               (case asMarshaler env a t v of
                  Some m \<Rightarrow> marshaler out path m
                | None \<Rightarrow>
                    (case kindOf t of
                       KStruct \<Rightarrow>
                         marshalStruct env out path pos a (tags t) (fieldsOf t)
                           (case v of VStruct fvs \<Rightarrow> fvs | _ \<Rightarrow> [])
                     | KMap \<Rightarrow>
                         marshalMap env out path pos t (mapEntries v)
                           (MapKeys env pos (map fst (mapEntries v)))
                     | KSlice \<Rightarrow>
                         marshalSlice env out path pos True (elemOf t) 0
                           (case v of VSlice xs \<Rightarrow> xs | _ \<Rightarrow> [])
                     | KArray \<Rightarrow>
                         marshalSlice env out path pos a (elemOf t) 0
                           (case v of VArray xs \<Rightarrow> xs | _ \<Rightarrow> [])
                     | KInterface \<Rightarrow>
                         (case v of
                            VIface dt dv \<Rightarrow> marshalValue env out path pos False False dt dv
                          | _ \<Rightarrow> Inr out)
                     | _ \<Rightarrow> marshalScalar out path t v))))"
| "marshalStruct env out path pos addr tgs fs [] = Inr out"
| "marshalStruct env out path pos addr [] fs (fv # fvs) = Inr out"
| "marshalStruct env out path pos addr (tg # tgs) [] (fv # fvs) = Inr out"
| "marshalStruct env out path pos addr (tg # tgs) (f # fs) (fv # fvs) =
     (if Ignore tg then marshalStruct env out path pos addr tgs fs fvs
      else if Omit tg \<and> isEmptyValue (snd (snd f)) fv
      then marshalStruct env out path pos addr tgs fs fvs
      else if Name tg = [] then marshalStruct env out path pos addr tgs fs fvs
      else
        (case marshalValue env out (path @ [Name tg]) (pos @ [fst f]) addr (\<not> exported (fst f))
                (snd (snd f)) fv of
           Inl e \<Rightarrow> Inl e
         | Inr out' \<Rightarrow> marshalStruct env out' path pos addr tgs fs fvs))"
| "marshalMap env out path pos t es [] = Inr out"
| "marshalMap env out path pos t es (k # ks) =
     (case map_of es k of
        None \<Rightarrow> marshalMap env out path pos t es ks
      | Some mv \<Rightarrow>
          if kindOf (elemOf t) = KInterface \<and> mv = VNil then marshalMap env out path pos t es ks
          else
            (case marshalValue env out (path @ [keyText env t k]) (pos @ [k]) False False
                    (elemOf t) mv of
               Inl e \<Rightarrow> Inl e
             | Inr out' \<Rightarrow> marshalMap env out' path pos t es ks))"
| "marshalSlice env out path pos addr et i [] = Inr out"
| "marshalSlice env out path pos addr et i (elem # xs) =
     (if kindOf et = KInterface \<and> elem = VNil then marshalSlice env out path pos addr et (Suc i) xs
      else
        (case marshalValue env out (path @ ['''']) (pos @ [FormatUint i]) addr False et elem of
           Inl e \<Rightarrow> Inl e
         | Inr out' \<Rightarrow> marshalSlice env out' path pos addr et (Suc i) xs))"
  by pat_completeness auto
termination
  apply (relation "inv_image (less_than <*lex*> less_than)
     (\<lambda>x. case x of
         Inl (Inl (env, out, path, pos, addr, ro, t, v)) \<Rightarrow> (2 * vsize v + 1, 0)
       | Inl (Inr (env, out, path, pos, addr, tgs, fs, fvs)) \<Rightarrow>
           (2 * sum_list (map (\<lambda>x. Suc (vsize x)) fvs), 0)
       | Inr (Inl (env, out, path, pos, t, es, ks)) \<Rightarrow>
           (2 * sum_list (map (\<lambda>e. Suc (vsize (snd e))) es), length ks)
       | Inr (Inr (env, out, path, pos, addr, et, i, xs)) \<Rightarrow>
           (2 * sum_list (map (\<lambda>x. Suc (vsize x)) xs), 0))")
  apply (auto simp: mapEntries_def dest!: vsize_elemM vsize_map_of split: val.splits)
  done

declare marshalValue.simps [simp del]

subsection \<open>Serialisation and Marshal\<close>

text \<open>
  \<open>url.QueryEscape\<close> and \<open>Values.Encode\<close>: the keys in sorted order, each with its
  values in the order they were added, as \<open>key=value\<close> joined by \<open>&\<close>.
\<close>

definition alnum :: "char \<Rightarrow> bool" where
  "alnum c \<longleftrightarrow> (CHR ''a'' \<le> c \<and> c \<le> CHR ''z'') \<or> (CHR ''A'' \<le> c \<and> c \<le> CHR ''Z'')
     \<or> (CHR ''0'' \<le> c \<and> c \<le> CHR ''9'')"

definition shouldEscape :: "char \<Rightarrow> bool" where
  "shouldEscape c \<longleftrightarrow> \<not> (alnum c \<or> c \<in> {CHR ''-'', CHR ''_'', CHR ''.'', CHR ''~''})"

definition upperhex :: "nat \<Rightarrow> char" where
  "upperhex n = ''0123456789ABCDEF'' ! (n mod 16)"

fun QueryEscape :: "string \<Rightarrow> string" where
  "QueryEscape [] = []"
| "QueryEscape (c # cs) =
     (if c = CHR '' '' then CHR ''+'' # QueryEscape cs
      else if shouldEscape c
      then CHR ''%'' # upperhex (of_char c div 16) # upperhex (of_char c mod 16) # QueryEscape cs
      else c # QueryEscape cs)"

fun joinAmp :: "string list \<Rightarrow> string" where
  "joinAmp [] = []"
| "joinAmp [p] = p"
| "joinAmp (p # q # ps) = p @ CHR ''&'' # joinAmp (q # ps)"

definition lookup :: "Values \<Rightarrow> string \<Rightarrow> string list" where
  "lookup v k = (case map_of v k of None \<Rightarrow> [] | Some vs \<Rightarrow> vs)"

definition encodePair :: "string \<times> string \<Rightarrow> string" where
  "encodePair p = QueryEscape (fst p) @ CHR ''='' # QueryEscape (snd p)"

definition Encode :: "Values \<Rightarrow> string" where
  "Encode v =
     joinAmp (concat (map (\<lambda>k. map (\<lambda>x. encodePair (k, x)) (lookup v k))
                          (sort (remdups (map fst v)))))"

text \<open>The argument of \<open>Marshal\<close> is an interface value, as for \<open>Unmarshal\<close>.\<close>

definition Marshal :: "env \<Rightarrow> (ty \<times> val) option \<Rightarrow> error + string" where
  "Marshal env v =
     (case v of
        None \<Rightarrow> Inr []
      | Some (t0, v0) \<Rightarrow>
          if kindOf t0 = KPointer \<and> v0 = VNil then Inr []
          else
            (case elemM False t0 v0 of
               (a, t, rv) \<Rightarrow>
                 if kindOf t \<noteq> KStruct \<and> kindOf t \<noteq> KMap then Inl TopLevelNotStructOrMap
                 else if kindOf t = KMap \<and> kindOf (keyOf t) \<noteq> KString then Inl MapKeysNotStrings
                 else
                   (case marshalValue env [] [] [] a False t rv of
                      Inl e \<Rightarrow> Inl e
                    | Inr values \<Rightarrow> Inr (Encode values))))"

definition EncodeToString :: "env \<Rightarrow> (ty \<times> val) option \<Rightarrow> error + string" where
  "EncodeToString env v = Marshal env v"

section \<open>Example types\<close>

text \<open>
  \<open>Person\<close> is the record of the package's test fixtures; \<open>holder\<close> is a record whose
  field \<open>m\<close> is a map of typed sequences; \<open>dynamicMap\<close> is \<open>map[string]interface{}\<close>,
  \<open>stringMap\<close> is \<open>map[string]string\<close> and \<open>intLists\<close> is \<open>map[string][]int64\<close>;
  \<open>anyBox\<close> is a record with one field \<open>v\<close> of type \<open>interface{}\<close>.
  \<open>validTarget\<close> describes the arguments
  that pass the checks of \<open>Unmarshal\<close>: a non-nil pointer to a struct or to a map with
  keys of string kind.
\<close>

definition Person :: ty where
  "Person = TNamed ''Person''
     (TStruct [(''Name'', ''name'', TString), (''Age'', ''age,omitempty'', TInt 64),
               (''Pronouns'', ''pronouns'', TSlice TString)])"

definition holder :: ty where
  "holder = TStruct [(''M'', ''m'', TMap TString (TSlice TString))]"

definition dynamicMap :: ty where
  "dynamicMap = TMap TString TInterface"

definition stringMap :: ty where
  "stringMap = TMap TString TString"

definition intLists :: ty where
  "intLists = TMap TString (TSlice (TInt 64))"

definition anyBox :: ty where
  "anyBox = TStruct [(''V'', ''v'', TInterface)]"

definition dyn :: "string \<Rightarrow> val" where
  "dyn s = VIface TString (VString s)"

definition validTarget :: "(ty \<times> val) option \<Rightarrow> bool" where
  "validTarget v \<longleftrightarrow>
     (case v of
        Some (pt, VPtr x) \<Rightarrow>
          kindOf pt = KPointer \<and>
          (kindOf (elemOf pt) = KStruct \<or>
           (kindOf (elemOf pt) = KMap \<and> kindOf (keyOf (elemOf pt)) = KString))
      | _ \<Rightarrow> False)"

section \<open>The pairs that the traversal emits\<close>

text \<open>
  \<open>marshalValue\<close> threads the output multimap through the traversal and only ever adds
  to it with \<open>Add\<close>.  \<open>emitValue\<close> is the same traversal returning the list of the
  (key, value) pairs that are added, in order; \<open>seqE\<close> runs the steps of a loop and stops at
  the first error.  Lemma \<open>marshal_emit\<close> below shows that \<open>marshalValue\<close> adds exactly
  these pairs to its output.
\<close>

fun seqE :: "(error + 'a list) list \<Rightarrow> error + 'a list" where
  "seqE [] = Inr []"
| "seqE (r # rs) =
     (case r of
        Inl e \<Rightarrow> Inl e
      | Inr ps \<Rightarrow> (case seqE rs of Inl e \<Rightarrow> Inl e | Inr qs \<Rightarrow> Inr (ps @ qs)))"

definition emitLeaf :: "string list \<Rightarrow> error + string \<Rightarrow> error + (string \<times> string) list" where
  "emitLeaf path m =
     (case m of
        Inl e \<Rightarrow> Inl e
      | Inr s \<Rightarrow> (case renderPath path of Inl e \<Rightarrow> Inl e | Inr k \<Rightarrow> Inr [(k, s)]))"

definition emitScalar :: "string list \<Rightarrow> ty \<Rightarrow> val \<Rightarrow> error + (string \<times> string) list" where
  "emitScalar path t v =
     (case renderPath path of
        Inl e \<Rightarrow> Inl e
      | Inr k \<Rightarrow> (case getScalar t v of Inl e \<Rightarrow> Inl e | Inr s \<Rightarrow> Inr [(k, s)]))"

definition skipField :: "tag \<Rightarrow> ty \<Rightarrow> val \<Rightarrow> bool" where
  "skipField tg ft fv \<longleftrightarrow> Ignore tg \<or> (Omit tg \<and> isEmptyValue ft fv) \<or> Name tg = []"

definition structFields :: "val \<Rightarrow> val list" where
  "structFields v = (case v of VStruct fvs \<Rightarrow> fvs | _ \<Rightarrow> [])"

definition arrayElems :: "val \<Rightarrow> val list" where
  "arrayElems v = (case v of VArray xs \<Rightarrow> xs | _ \<Rightarrow> [])"

lemma vsize_member: "x \<in> set xs \<Longrightarrow> Suc (vsize x) \<le> sum_list (map (\<lambda>x. Suc (vsize x)) xs)"
  by (induction xs) auto

lemma vsize_sliceElems: "x \<in> set (sliceElems v) \<Longrightarrow> vsize x < vsize v"
  by (auto simp: sliceElems_def split: val.splits dest: vsize_member)

lemma vsize_arrayElems: "x \<in> set (arrayElems v) \<Longrightarrow> vsize x < vsize v"
  by (auto simp: arrayElems_def split: val.splits dest: vsize_member)

lemma vsize_structFields:
  "(tg, f, x) \<in> set (zip ts (zip fs (structFields v))) \<Longrightarrow> vsize x < vsize v"
  by (auto simp: structFields_def split: val.splits dest!: set_zip_rightD dest: vsize_member)

lemma vsize_mapEntries: "map_of (mapEntries v) k = Some mv \<Longrightarrow> vsize mv < vsize v"
  by (auto simp: mapEntries_def split: val.splits dest: vsize_map_of)

lemma vsize_enumerate:
  "(i, x) \<in> set (enumerate n xs) \<Longrightarrow> Suc (vsize x) \<le> sum_list (map (\<lambda>x. Suc (vsize x)) xs)"
proof -
  assume "(i, x) \<in> set (enumerate n xs)"
  then have "x \<in> set xs" by (auto simp: in_set_enumerate_eq)
  then show ?thesis by (rule vsize_member)
qed

lemma vsize_sliceElems_enumerate:
  "(i, x) \<in> set (enumerate n (sliceElems v)) \<Longrightarrow> vsize x < vsize v"
  by (auto simp: sliceElems_def split: val.splits dest: vsize_enumerate)

lemma vsize_arrayElems_enumerate:
  "(i, x) \<in> set (enumerate n (arrayElems v)) \<Longrightarrow> vsize x < vsize v"
  by (auto simp: arrayElems_def split: val.splits dest: vsize_enumerate)

function emitValue ::
  "env \<Rightarrow> string list \<Rightarrow> string list \<Rightarrow> bool \<Rightarrow> bool \<Rightarrow> ty \<Rightarrow> val
     \<Rightarrow> error + (string \<times> string) list" where
  "emitValue env path pos addr ro t0 v0 =
     (if kindOf t0 = KPointer \<and> v0 = VNil then Inr []
      else
        (case elemM addr t0 v0 of
           (a, t, v) \<Rightarrow>
             if ro then Inl (Panic ''reflect.Value.Interface: value obtained from unexported field'')
             else
               (case asMarshaler env a t v of
                  Some m \<Rightarrow> emitLeaf path m
                | None \<Rightarrow>
                    (case kindOf t of
                       KStruct \<Rightarrow>
                         seqE (map (\<lambda>(tg, f, fv).
                                      if skipField tg (snd (snd f)) fv then Inr []
                                      else emitValue env (path @ [Name tg]) (pos @ [fst f]) a
                                             (\<not> exported (fst f)) (snd (snd f)) fv)
                                   (zip (tags t) (zip (fieldsOf t) (structFields v))))
                     | KMap \<Rightarrow>
                         seqE (map (\<lambda>k. case map_of (mapEntries v) k of
                                           None \<Rightarrow> Inr []
                                         | Some mv \<Rightarrow>
                                             if kindOf (elemOf t) = KInterface \<and> mv = VNil then Inr []
                                             else emitValue env (path @ [keyText env t k]) (pos @ [k])
                                                    False False (elemOf t) mv)
                                   (MapKeys env pos (map fst (mapEntries v))))
                     | KSlice \<Rightarrow>
                         seqE (map (\<lambda>(i, x).
                                      if kindOf (elemOf t) = KInterface \<and> x = VNil then Inr []
                                      else emitValue env (path @ ['''']) (pos @ [FormatUint i])
                                             True False (elemOf t) x)
                                   (enumerate 0 (sliceElems v)))
                     | KArray \<Rightarrow>
                         seqE (map (\<lambda>(i, x).
                                      if kindOf (elemOf t) = KInterface \<and> x = VNil then Inr []
                                      else emitValue env (path @ ['''']) (pos @ [FormatUint i])
                                             a False (elemOf t) x)
                                   (enumerate 0 (arrayElems v)))
                     | KInterface \<Rightarrow>
                         (case v of
                            VIface dt dv \<Rightarrow> emitValue env path pos False False dt dv
                          | _ \<Rightarrow> Inr [])
                     | _ \<Rightarrow> emitScalar path t v))))"
  by pat_completeness auto

termination
  apply (relation "measure (\<lambda>(env, path, pos, addr, ro, t, v). vsize v)")
  apply (auto dest!: vsize_elemM vsize_sliceElems_enumerate vsize_arrayElems_enumerate
              vsize_mapEntries vsize_structFields)
  done

declare emitValue.simps [simp del]

definition addAll :: "Values \<Rightarrow> (string \<times> string) list \<Rightarrow> Values" where
  "addAll out ps = foldl (\<lambda>acc p. Add acc (fst p) (snd p)) out ps"

definition lift :: "Values \<Rightarrow> error + (string \<times> string) list \<Rightarrow> error + Values" where
  "lift out r = (case r of Inl e \<Rightarrow> Inl e | Inr ps \<Rightarrow> Inr (addAll out ps))"

text \<open>
  \<open>emitTop\<close> is \<open>Marshal\<close> up to the call of \<open>Encode\<close>: the checks on the argument, then the
  pairs of the traversal from the empty path.
\<close>

definition emitTop :: "env \<Rightarrow> (ty \<times> val) option \<Rightarrow> error + (string \<times> string) list" where
  "emitTop env v =
     (case v of
        None \<Rightarrow> Inr []
      | Some (t0, v0) \<Rightarrow>
          if kindOf t0 = KPointer \<and> v0 = VNil then Inr []
          else
            (case elemM False t0 v0 of
               (a, t, rv) \<Rightarrow>
                 if kindOf t \<noteq> KStruct \<and> kindOf t \<noteq> KMap then Inl TopLevelNotStructOrMap
                 else if kindOf t = KMap \<and> kindOf (keyOf t) \<noteq> KString then Inl MapKeysNotStrings
                 else emitValue env [] [] a False t rv))"

text \<open>
  The pairs of one key, in order; two lists with the same pairs under every key; the rendering
  of a path without the panic on the empty path; keys without brackets.  \<open>plainKeys t v\<close>
  says of a value \<open>v\<close> of type \<open>t\<close> that every map in it has a key type of string kind and
  keys without brackets.
\<close>

definition onKey :: "string \<Rightarrow> (string \<times> string) list \<Rightarrow> (string \<times> string) list" where
  "onKey k ps = filter (\<lambda>p. fst p = k) ps"

definition samePerKey :: "(string \<times> string) list \<Rightarrow> (string \<times> string) list \<Rightarrow> bool" where
  "samePerKey ps qs \<longleftrightarrow> (\<forall>k. onKey k ps = onKey k qs)"

definition bracket :: "string \<Rightarrow> string" where
  "bracket p = CHR ''['' # p @ '']''"

definition render :: "string list \<Rightarrow> string" where
  "render path = (case path of [] \<Rightarrow> [] | p0 # ps \<Rightarrow> p0 @ concat (map bracket ps))"

definition plainKey :: "string \<Rightarrow> bool" where
  "plainKey k \<longleftrightarrow> CHR ''['' \<notin> set k \<and> CHR '']'' \<notin> set k"

lemma vsize_entry:
  "(k, x) \<in> set es \<Longrightarrow> Suc (vsize x) \<le> sum_list (map (\<lambda>e. Suc (vsize (snd e))) es)"
  by (induction es) auto

lemma vsize_zip_fields:
  "(f, x) \<in> set (zip fs xs) \<Longrightarrow> Suc (vsize x) \<le> sum_list (map (\<lambda>x. Suc (vsize x)) xs)"
  by (auto dest!: set_zip_rightD dest: vsize_member)

function plainKeys :: "ty \<Rightarrow> val \<Rightarrow> bool" where
  "plainKeys t (VMap es) =
     (kindOf (keyOf t) = KString \<and> distinct (map fst es) \<and>
      list_all (\<lambda>e. plainKey (fst e) \<and> plainKeys (elemOf t) (snd e)) es)"
| "plainKeys t (VPtr x) = plainKeys (elemOf t) x"
| "plainKeys t (VIface dt x) = plainKeys dt x"
| "plainKeys t (VSlice xs) = list_all (plainKeys (elemOf t)) xs"
| "plainKeys t (VArray xs) = list_all (plainKeys (elemOf t)) xs"
| "plainKeys t (VStruct xs) =
     list_all (\<lambda>fx. plainKeys (snd (snd (fst fx))) (snd fx)) (zip (fieldsOf t) xs)"
| "plainKeys t (VString s) = True"
| "plainKeys t (VBool b) = True"
| "plainKeys t (VInt i) = True"
| "plainKeys t (VUint n) = True"
| "plainKeys t (VFloat f) = True"
| "plainKeys t VComplex = True"
| "plainKeys t VChan = True"
| "plainKeys t VFunc = True"
| "plainKeys t VNil = True"
  by pat_completeness auto

termination
  apply (relation "measure (\<lambda>(t, v). vsize v)")
  apply (auto dest: vsize_member vsize_zip_fields vsize_entry)
  done

text \<open>
  \<open>reachesUnsupported\<close> holds when the traversal comes to a value of channel, function or
  complex kind: it follows pointers, interfaces, the struct fields that are not skipped and the
  elements of maps, slices and arrays that are not nil interfaces, and stops at a value that
  has a \<open>Marshaler\<close> hook.
\<close>

definition unsupportedKind :: "kind \<Rightarrow> bool" where
  "unsupportedKind k \<longleftrightarrow> k = KChan \<or> k = KFunc \<or> k = KComplex"

function reachesUnsupported :: "env \<Rightarrow> bool \<Rightarrow> ty \<Rightarrow> val \<Rightarrow> bool" where
  "reachesUnsupported env addr t0 v0 =
     (if kindOf t0 = KPointer \<and> v0 = VNil then False
      else
        (case elemM addr t0 v0 of
           (a, t, v) \<Rightarrow>
             (case asMarshaler env a t v of
                Some m \<Rightarrow> False
              | None \<Rightarrow>
                  (case kindOf t of
                     KStruct \<Rightarrow>
                       list_ex (\<lambda>(tg, f, fv). \<not> skipField tg (snd (snd f)) fv \<and>
                                   reachesUnsupported env a (snd (snd f)) fv)
                               (zip (tags t) (zip (fieldsOf t) (structFields v)))
                   | KMap \<Rightarrow>
                       list_ex (\<lambda>k. case map_of (mapEntries v) k of
                                       None \<Rightarrow> False
                                     | Some mv \<Rightarrow>
                                         \<not> (kindOf (elemOf t) = KInterface \<and> mv = VNil) \<and>
                                         reachesUnsupported env False (elemOf t) mv)
                               (map fst (mapEntries v))
                   | KSlice \<Rightarrow>
                       list_ex (\<lambda>x. \<not> (kindOf (elemOf t) = KInterface \<and> x = VNil) \<and>
                                     reachesUnsupported env True (elemOf t) x)
                               (sliceElems v)
                   | KArray \<Rightarrow>
                       list_ex (\<lambda>x. \<not> (kindOf (elemOf t) = KInterface \<and> x = VNil) \<and>
                                     reachesUnsupported env a (elemOf t) x)
                               (arrayElems v)
                   | KInterface \<Rightarrow>
                       (case v of
                          VIface dt dv \<Rightarrow> reachesUnsupported env False dt dv
                        | _ \<Rightarrow> False)
                   | k \<Rightarrow> unsupportedKind k))))"
  by pat_completeness auto

termination
  apply (relation "measure (\<lambda>(env, addr, t, v). vsize v)")
  apply (auto dest!: vsize_elemM vsize_sliceElems vsize_arrayElems vsize_mapEntries
              vsize_structFields)
  done

declare reachesUnsupported.simps [simp del]

section \<open>Decoding as one pass over the pairs\<close>

text \<open>
  The loops of \<open>unmarshalForm\<close> call \<open>assign\<close> once for every value of every entry, in
  order: when every key parses, they are one pass over the flattened list of pairs.
\<close>

fun assignPairs ::
  "env \<Rightarrow> bool \<Rightarrow> ty \<Rightarrow> val \<Rightarrow> (pathSegment list \<times> string) list \<Rightarrow> val \<times> error option" where
  "assignPairs env addr t v [] = (v, None)"
| "assignPairs env addr t v ((path, val) # ps) =
     (case assign env addr t v path val of
        (v', Some e) \<Rightarrow> (v', Some e)
      | (v', None) \<Rightarrow> assignPairs env addr t v' ps)"

fun flatten :: "Values \<Rightarrow> (pathSegment list \<times> string) list" where
  "flatten [] = []"
| "flatten ((rawKey, vals) # values) =
     (case parseKey rawKey of
        Inl e \<Rightarrow> []
      | Inr path \<Rightarrow> map (Pair path) vals @ flatten values)"

section \<open>Dynamic values and their leaves\<close>

text \<open>
  The values that decoding builds in a slot of interface type: an interface holding a string,
  a \<open>[]interface{}\<close> of such values or a \<open>map[string]interface{}\<close> of them, the keys of
  the maps without brackets.  \<open>leaves\<close> lists the (key, value) pairs of such a value below a
  path, the entries of a map in the order of the list.
\<close>

fun dynElem :: "val \<Rightarrow> bool" where
  "dynElem (VIface t (VString s)) = (t = TString)"
| "dynElem (VIface t (VSlice xs)) = (t = TSlice TInterface \<and> list_all dynElem xs)"
| "dynElem (VIface t (VMap es)) =
     (t = TMap TString TInterface \<and> distinct (map fst es) \<and>
      list_all (\<lambda>e. plainKey (fst e) \<and> dynElem (snd e)) es)"
| "dynElem v = False"

fun leaves :: "string list \<Rightarrow> val \<Rightarrow> (string \<times> string) list" where
  "leaves path (VIface t (VString s)) = [(render path, s)]"
| "leaves path (VIface t (VSlice xs)) = concat (map (leaves (path @ [''''])) xs)"
| "leaves path (VIface t (VMap es)) = concat (map (\<lambda>e. leaves (path @ [fst e]) (snd e)) es)"
| "leaves path v = []"

definition dynOpt :: "(ty \<times> val) option \<Rightarrow> bool" where
  "dynOpt v = (case v of None \<Rightarrow> True | Some (dt, dv) \<Rightarrow> dynElem (VIface dt dv))"

definition leavesOpt :: "string list \<Rightarrow> (ty \<times> val) option \<Rightarrow> (string \<times> string) list" where
  "leavesOpt path v = (case v of None \<Rightarrow> [] | Some (dt, dv) \<Rightarrow> leaves path (VIface dt dv))"

text \<open>
  \<open>accepts v path\<close>: the value \<open>v\<close> of a slot (\<open>None\<close> when there is none) can take an
  assignment along \<open>path\<close> without losing anything: the names of the path lead through maps,
  an index marker meets a sequence or nothing, and the end of the path meets nothing.
\<close>

fun accepts :: "(ty \<times> val) option \<Rightarrow> pathSegment list \<Rightarrow> bool" where
  "accepts v [] = (v = None)"
| "accepts v (seg # rest) =
     (case v of
        None \<Rightarrow> True
      | Some (dt, dv) \<Rightarrow>
          if Index seg then (case dv of VSlice xs \<Rightarrow> True | _ \<Rightarrow> False)
          else (case dv of VMap es \<Rightarrow> accepts (valueOf (map_of es (Key seg))) rest | _ \<Rightarrow> False))"

text \<open>
  Two paths are compatible when, after the names they share, both go on with an index
  marker or with two different names.  They conflict when one ends where the other ends or
  goes on, or when one has a name where the other has an index marker.
\<close>

fun compatRel :: "pathSegment list \<Rightarrow> pathSegment list \<Rightarrow> bool" where
  "compatRel [] q = False"
| "compatRel (s # p) [] = False"
| "compatRel (s # p) (s' # q) =
     (if Index s then Index s'
      else \<not> Index s' \<and> (Key s = Key s' \<longrightarrow> compatRel p q))"

text \<open>The first segment of a key names an entry of the top-level map, index marker or not.\<close>

definition rooted :: "pathSegment list \<Rightarrow> pathSegment list" where
  "rooted p = (case p of [] \<Rightarrow> [] | s # rest \<Rightarrow> s\<lparr>Index := False\<rparr> # rest)"

definition compatible :: "pathSegment list \<Rightarrow> pathSegment list \<Rightarrow> bool" where
  "compatible p q = compatRel (rooted p) (rooted q)"

fun consistent :: "pathSegment list list \<Rightarrow> bool" where
  "consistent [] = True"
| "consistent (p # ps) = (list_all (compatible p) ps \<and> consistent ps)"

definition plainPath :: "pathSegment list \<Rightarrow> bool" where
  "plainPath p \<longleftrightarrow> p \<noteq> [] \<and> list_all (\<lambda>s. plainKey (Key s) \<and> (Index s \<longrightarrow> Key s = [])) p"

definition rendered :: "pathSegment list \<times> string \<Rightarrow> string \<times> string" where
  "rendered pv = (render (map Key (fst pv)), snd pv)"

definition canonicalize :: "(pathSegment list \<times> string) list \<Rightarrow> string" where
  "canonicalize ps = joinAmp (map encodePair (sort_key fst (map rendered ps)))"

text \<open>
  The top-level map as a slot of type inference, and as a dynamic value; the keys that
  \<open>parseKey\<close> accepts; the pairs that one key of the input gives.
\<close>

definition rootOpt :: "val \<Rightarrow> (ty \<times> val) option" where
  "rootOpt V = Some (TMap TString TInterface, VMap (mapEntries V))"

definition rootElem :: "val \<Rightarrow> val" where
  "rootElem V = VIface (TMap TString TInterface) (VMap (mapEntries V))"

definition parses :: "string \<Rightarrow> bool" where
  "parses rawKey = (case parseKey rawKey of Inl e \<Rightarrow> False | Inr path \<Rightarrow> True)"

definition pairsOf :: "string \<times> string list \<Rightarrow> (pathSegment list \<times> string) list" where
  "pairsOf kv = (case parseKey (fst kv) of Inl e \<Rightarrow> [] | Inr path \<Rightarrow> map (Pair path) (snd kv))"

section \<open>The tag cache under concurrent calls (tags.go)\<close>

text \<open>
  \<open>tags\<close> looks the type up in \<open>structTagCache\<close> with \<open>Load\<close>; on a miss it computes the
  tags of the fields and puts them in the cache with \<open>Store\<close>.  \<open>Load\<close> and \<open>Store\<close> of a
  \<open>sync.Map\<close> are atomic, and nothing else is held between them.  The calls of several
  goroutines for one struct type are modelled as threads that each take these steps, in any
  interleaving: a thread that is \<open>Calling\<close> has not yet done its \<open>Load\<close>, one that is
  \<open>Computing\<close> has missed and has not yet done its \<open>Store\<close>, and one that has \<open>Returned\<close>
  holds the tags that its call returned.  \<open>computations\<close> counts how often the loop over the
  fields has run.  A schedule is the list of the threads that step, in order.
\<close>

datatype thread = Calling | Computing | Returned "tag list"

record cacheState =
  cache :: "tag list option"
  computations :: nat
  threads :: "thread list"

definition step :: "ty \<Rightarrow> nat \<Rightarrow> cacheState \<Rightarrow> cacheState" where
  "step t i s =
     (if length (threads s) \<le> i then s
      else
        (case threads s ! i of
           Calling \<Rightarrow>
             (case cache s of
                Some cached \<Rightarrow> s\<lparr>threads := (threads s)[i := Returned cached]\<rparr>
              | None \<Rightarrow> s\<lparr>threads := (threads s)[i := Computing]\<rparr>)
         | Computing \<Rightarrow>
             s\<lparr>cache := Some (tags t), computations := computations s + 1,
               threads := (threads s)[i := Returned (tags t)]\<rparr>
         | Returned r \<Rightarrow> s))"

fun run :: "ty \<Rightarrow> nat list \<Rightarrow> cacheState \<Rightarrow> cacheState" where
  "run t [] s = s"
| "run t (i # sched) s = run t sched (step t i s)"

definition initial :: "nat \<Rightarrow> cacheState" where
  "initial n = \<lparr>cache = None, computations = 0, threads = replicate n Calling\<rparr>"

definition returnedCount :: "cacheState \<Rightarrow> nat" where
  "returnedCount s = length (filter (\<lambda>th. th \<noteq> Calling \<and> th \<noteq> Computing) (threads s))"

definition cacheInv :: "ty \<Rightarrow> cacheState \<Rightarrow> bool" where
  "cacheInv t s \<longleftrightarrow>
     (cache s = None \<or> cache s = Some (tags t)) \<and>
     list_all (\<lambda>th. th = Calling \<or> th = Computing \<or> th = Returned (tags t)) (threads s) \<and>
     computations s \<le> returnedCount s \<and>
     (cache s = None \<longrightarrow> computations s = 0)"

section \<open>Path parser: properties\<close>

lemma IndexByte_None: "IndexByte s c = None \<longleftrightarrow> c \<notin> set s"
  by (induction s) (auto split: option.splits)

lemma IndexByte_Some:
  "IndexByte s c = Some i \<Longrightarrow> s = take i s @ c # drop (Suc i) s \<and> c \<notin> set (take i s)"
proof (induction s arbitrary: i)
  case Nil
  then show ?case by simp
next
  case (Cons x xs)
  then show ?case
    by (cases "x = c") (auto split: option.splits)
qed

lemma unterminated_no_open: "CHR ''['' \<notin> set s \<Longrightarrow> \<not> unterminated s"
  by (induction s) auto

lemma unterminated_prefix_open:
  "CHR ''['' \<notin> set pre \<Longrightarrow>
   unterminated (pre @ CHR ''['' # rest) \<longleftrightarrow> CHR '']'' \<notin> set rest \<or> unterminated rest"
  by (induction pre) auto

lemma unterminated_prefix_close:
  "unterminated (part @ CHR '']'' # rest) \<longleftrightarrow> unterminated rest"
  by (induction part) auto

lemma parseKey_loop_fails_iff:
  "(parseKey_loop key path = Inl InvalidKeySyntax \<longleftrightarrow> unterminated key) \<and>
   (\<not> unterminated key \<longrightarrow> (\<exists>p. parseKey_loop key path = Inr p))"
proof (induction key path rule: parseKey_loop.induct)
  case (1 key path)
  show ?case
  proof (cases "key = []")
    case True
    then show ?thesis by (simp add: parseKey_loop.simps)
  next
    case ne: False
    show ?thesis
    proof (cases "IndexByte key CHR ''[''")
      case None
      then have "CHR ''['' \<notin> set key" by (simp add: IndexByte_None)
      then have "\<not> unterminated key" by (rule unterminated_no_open)
      with ne None show ?thesis by (simp add: parseKey_loop.simps)
    next
      case (Some i)
      define key1 where "key1 = drop (i + 1) key"
      from IndexByte_Some[OF Some]
      have split1: "key = take i key @ CHR ''['' # key1" and pre: "CHR ''['' \<notin> set (take i key)"
        by (simp_all add: key1_def)
      have u1: "unterminated key \<longleftrightarrow> CHR '']'' \<notin> set key1 \<or> unterminated key1"
        using unterminated_prefix_open[OF pre, of key1] split1 by simp
      show ?thesis
      proof (cases "IndexByte key1 CHR '']''")
        case None
        then have "CHR '']'' \<notin> set key1" by (simp add: IndexByte_None)
        with u1 have "unterminated key" by simp
        moreover have "parseKey_loop key path = Inl InvalidKeySyntax"
          using ne Some None by (simp add: parseKey_loop.simps key1_def)
        ultimately show ?thesis by simp
      next
        case j: (Some j)
        define rest where "rest = drop (j + 1) key1"
        from IndexByte_Some[OF j]
        have split2: "key1 = take j key1 @ CHR '']'' # rest"
          by (simp add: rest_def)
        then have cl: "CHR '']'' \<in> set key1"
          by (metis in_set_conv_decomp)
        have u2: "unterminated key1 \<longleftrightarrow> unterminated rest"
          using unterminated_prefix_close[of "take j key1" rest] split2 by simp
        define path1 where "path1 = (if i > 0 then path @ [named (take i key)] else path)"
        define path2 where "path2 = (if take j key1 = [] then path1 @ [indexMarker]
                                     else path1 @ [named (take j key1)])"
        have step: "parseKey_loop key path = parseKey_loop rest path2"
          using ne Some j
          by (subst parseKey_loop.simps)
             (simp add: key1_def rest_def path1_def path2_def Let_def)
        have IH: "(parseKey_loop rest path2 = Inl InvalidKeySyntax \<longleftrightarrow> unterminated rest) \<and>
                  (\<not> unterminated rest \<longrightarrow> (\<exists>p. parseKey_loop rest path2 = Inr p))"
          using "1.IH"[OF ne Some, of path1 key1 j "take j key1" path2] j
          by (simp add: key1_def rest_def path1_def path2_def)
        from u1 u2 cl have "unterminated key \<longleftrightarrow> unterminated rest" by simp
        with step IH show ?thesis by simp
      qed
    qed
  qed
qed

text \<open>
  Claim C8 (amended).  Path parsing fails, with the syntax error, exactly when the raw
  key contains an opening bracket with no closing bracket after it; every other key
  parses successfully.  A non-empty key with no opening bracket yields the single named
  segment equal to the whole key; the empty key yields the empty path (no segment).
\<close>

theorem parseKey_fails_iff_unterminated:
  "(parseKey key = Inl InvalidKeySyntax \<longleftrightarrow> unterminated key) \<and>
   (\<not> unterminated key \<longrightarrow> (\<exists>p. parseKey key = Inr p)) \<and>
   (key \<noteq> [] \<and> CHR ''['' \<notin> set key \<longrightarrow> parseKey key = Inr [named key]) \<and>
   parseKey [] = Inr []"
proof -
  have "key \<noteq> [] \<and> CHR ''['' \<notin> set key \<longrightarrow> parseKey key = Inr [named key]"
  proof (intro impI, elim conjE)
    assume ne: "key \<noteq> []" and "CHR ''['' \<notin> set key"
    then have "IndexByte key CHR ''['' = None" by (simp add: IndexByte_None)
    with ne show "parseKey key = Inr [named key]"
      by (simp add: parseKey_def parseKey_loop.simps)
  qed
  moreover have "parseKey [] = Inr []"
    by (simp add: parseKey_def parseKey_loop.simps)
  ultimately show ?thesis
    using parseKey_loop_fails_iff[of key "[]"] by (simp add: parseKey_def)
qed

theorem parseKey_fails_iff_unterminated_witness:
  "parseKey ''a[b'' = Inl InvalidKeySyntax \<and> unterminated ''a[b'' \<and>
   \<not> unterminated ''a[b][]'' \<and> (\<exists>p. parseKey ''a[b][]'' = Inr p) \<and>
   parseKey ''name'' = Inr [named ''name'']"
  using parseKey_fails_iff_unterminated[of "''a[b''"]
        parseKey_fails_iff_unterminated[of "''a[b][]''"]
        parseKey_fails_iff_unterminated[of "''name''"]
  by simp

text \<open>
  Claim C8 as stated fails at the empty key, which has no brackets but parses to the
  empty path rather than to one named segment.
\<close>

theorem parseKey_empty_key_counterexample:
  "CHR ''['' \<notin> set '''' \<and> CHR '']'' \<notin> set '''' \<and> \<not> unterminated '''' \<and>
   parseKey '''' = Inr [] \<and> parseKey '''' \<noteq> Inr [named '''']"
  by (simp add: parseKey_def parseKey_loop.simps)


section \<open>Decoding: properties\<close>

subsection \<open>Runtime orders and evaluation steps\<close>

lemma fairOrder_plainEnv: "fairOrder plainEnv"
  by (simp add: fairOrder_def plainEnv_def)

lemma fairOrder_single: "fairOrder env \<Longrightarrow> rangeValues env [x] = [x]"
  by (metis fairOrder_def mset_single_iff_right mset.simps(1) mset.simps(2)
      add_mset_eq_singleton_iff)

lemma fairOrder_empty: "fairOrder env \<Longrightarrow> rangeValues env [] = []"
  by (metis fairOrder_def mset_zero_iff mset.simps(1))

lemma assign_struct_step:
  assumes "kindOf t = KStruct"
  shows "assign env addr t v (seg # rest) val = assignStructField env addr t v (Key seg) rest val"
  using assms by (simp add: assign.simps deref_def reref_def)

lemma assign_map_step:
  assumes "kindOf t = KMap"
  shows "assign env addr t v (seg # rest) val = assignMapValue env addr t v seg rest val"
  using assms by (simp add: assign.simps deref_def reref_def)

lemma existingSlice_None: "existingSlice None = Inr []"
  by (simp add: existingSlice_def)

lemma existingMap_None: "existingMap None = Inr (Some [])"
  by (simp add: existingMap_def)

text \<open>Type inference from no prior value never fails.\<close>

lemma inferInterfaceValue_None_total: "\<exists>r. inferInterfaceValue None path val = Inr r"
proof (induction path)
  case Nil
  then show ?case by simp
next
  case (Cons seg rest)
  then obtain et ev where "inferInterfaceValue None rest val = Inr (et, ev)"
    by (metis surj_pair)
  then show ?case
    by (simp add: existingSlice_None existingMap_None valueOf_def)
qed

lemma keyAssignable_string [simp]: "keyAssignable (TMap TString t)"
  by (simp add: keyAssignable_def)

lemma keyAssignable_examples [simp]:
  "keyAssignable dynamicMap" "keyAssignable stringMap" "keyAssignable intLists"
  by (simp_all add: dynamicMap_def stringMap_def intLists_def)

subsection \<open>Leaves of dynamic slots\<close>

lemma ParseQuery_val007: "ParseQuery ''val=007'' = ([(''val'', [''007''])], None)"
  by code_simp

lemma parseKey_val: "parseKey ''val'' = Inr [named ''val'']"
  by code_simp

lemma assignMapValue_interface_leaf:
  assumes "kindOf (elemOf t) = KInterface" and "\<not> (m = VNil \<and> \<not> addr)" and "keyAssignable t"
  shows "assignMapValue env addr t m seg [] val =
           (VMap (map_set (mapEntries m) (Key seg) (VIface TString (VString val))), None)"
  using assms by (simp add: assignMapValue.simps Let_def)

lemma assignSliceValue_interface_leaf:
  assumes "Index seg" and "kindOf (elemOf t) = KInterface"
  shows "assignSliceValue env True t s seg [] val =
           (VSlice (sliceElems s @ [VIface TString (VString val)]), None)"
  using assms by (simp add: assignSliceValue.simps Let_def setValue_def)

lemma decode_val007:
  assumes "fairOrder env"
  shows "Unmarshal env ''val=007'' (Some (TPtr dynamicMap, VPtr VNil)) =
           (Some (TPtr dynamicMap, VPtr (VMap [(''val'', dyn ''007'')])), None)"
proof -
  have "assign env True dynamicMap VNil [named ''val''] ''007'' =
          (VMap [(''val'', dyn ''007'')], None)"
    by (simp add: assign_map_step assignMapValue_interface_leaf mapEntries_def named_def
        dynamicMap_def dyn_def)
  then show ?thesis
    using fairOrder_single[OF assms]
    by (simp add: Unmarshal_def ParseQuery_val007 unmarshalForm_def parseKey_val
        TrimSpace_def isSpace_def dynamicMap_def)
qed

text \<open>
  An interface slot that \<open>assign\<close> itself reaches with the path exhausted does not get the
  leaf string.  \<open>assign\<close> tests \<open>len(path) == 0\<close> before it looks at the kind, so the slot
  goes to \<open>assignLeaf\<close> and \<open>setScalar\<close>, which has no case for the interface kind:
  the call fails with \<open>unsupported type\<close> and the slot stays nil.  So it is for a field of
  interface type, and for the new element of a map of \<open>[]interface{}\<close>.
\<close>

lemma assignLeaf_nil_interface:
  "assignLeaf env addr TInterface VNil val = (VNil, Some UnsupportedType)"
  by (simp add: assignLeaf_def asUnmarshaler_def unmarshalerOf_def unmarshalerOfConcrete_def
      setScalar_def)

lemma assign_nil_interface:
  "assign env addr TInterface VNil [] val = (VNil, Some UnsupportedType)"
  by (simp add: assign.simps deref_def reref_def assignLeaf_nil_interface)

lemma assignMapValue_interface_slices:
  assumes "elemOf t = TSlice TInterface" and "\<not> (m = VNil \<and> \<not> addr)" and "keyAssignable t"
  shows "assignMapValue env addr t m seg path val = (VMap (mapEntries m), Some UnsupportedType)"
  using assms by (simp add: assignMapValue.simps Let_def assignLeaf_nil_interface)

lemma ParseQuery_v007: "ParseQuery ''v=007'' = ([(''v'', [''007''])], None)"
  by code_simp

lemma parseKey_v: "parseKey ''v'' = Inr [named ''v'']"
  by code_simp

lemma tags_anyBox: "tags anyBox = [\<lparr>Name = ''v'', Omit = False, Ignore = False\<rparr>]"
  by code_simp

lemma decode_anyBox:
  assumes "fairOrder env"
  shows "Unmarshal env ''v=007'' (Some (TPtr anyBox, VPtr (VStruct [VNil]))) =
           (Some (TPtr anyBox, VPtr (VStruct [VNil])), Some UnsupportedType)"
proof -
  have k: "kindOf anyBox = KStruct" by (simp add: anyBox_def)
  have f: "findStructField anyBox ''v'' = Some 0"
    by (simp add: findStructField_def tags_anyBox)
  have fs: "fieldsOf anyBox = [(''V'', ''v'', TInterface)]"
    by (simp add: anyBox_def)
  have "assign env True anyBox (VStruct [VNil]) [named ''v''] ''007'' =
          (VStruct [VNil], Some UnsupportedType)"
    by (simp add: assign_struct_step[OF k] assignStructField.simps f fs named_def exported_def
        assign_nil_interface)
  then show ?thesis
    using fairOrder_single[OF assms] k
    by (simp add: Unmarshal_def ParseQuery_v007 unmarshalForm_def parseKey_v
        TrimSpace_def isSpace_def)
qed

text \<open>
  Claim C2.  Type inference yields the leaf string itself when the path is exhausted,
  whatever the leaf looks like and whatever the slot held before, and so a map entry and a
  slice element of interface type get the string: decoding \<open>val=007\<close> into a dynamic mapping
  yields the string \<open>007\<close>.  But not every path-exhausted assignment into an interface slot
  reaches type inference: a slot that \<open>assign\<close> reaches directly (a struct field of interface
  type) and the new element of a map of \<open>[]interface{}\<close> are given to \<open>setScalar\<close>, which
  fails with \<open>unsupported type\<close> and leaves the slot nil.  Decoding \<open>v=007\<close> into a record
  with a field \<open>v\<close> of interface type fails.
\<close>

theorem dynamic_leaf_is_the_leaf_string:
  "inferInterfaceValue v [] val = Inr (TString, VString val) \<and>
   (kindOf (elemOf t1) = KInterface \<and> \<not> (m = VNil \<and> \<not> addr) \<and> keyAssignable t1 \<longrightarrow>
      assignMapValue env addr t1 m seg1 [] val =
        (VMap (map_set (mapEntries m) (Key seg1) (VIface TString (VString val))), None)) \<and>
   (kindOf (elemOf t2) = KInterface \<and> Index seg2 \<longrightarrow>
      assignSliceValue env True t2 s seg2 [] val =
        (VSlice (sliceElems s @ [VIface TString (VString val)]), None)) \<and>
   (fairOrder env \<longrightarrow>
      Unmarshal env ''val=007'' (Some (TPtr dynamicMap, VPtr VNil)) =
        (Some (TPtr dynamicMap, VPtr (VMap [(''val'', VIface TString (VString ''007''))])), None)) \<and>
   assign env addr TInterface VNil [] val = (VNil, Some UnsupportedType) \<and>
   (elemOf t3 = TSlice TInterface \<and> \<not> (m3 = VNil \<and> \<not> addr) \<and> keyAssignable t3 \<longrightarrow>
      assignMapValue env addr t3 m3 seg3 path3 val = (VMap (mapEntries m3), Some UnsupportedType)) \<and>
   (fairOrder env \<longrightarrow>
      Unmarshal env ''v=007'' (Some (TPtr anyBox, VPtr (VStruct [VNil]))) =
        (Some (TPtr anyBox, VPtr (VStruct [VNil])), Some UnsupportedType))"
  using assignMapValue_interface_leaf[of t1 m addr env seg1 val]
        assignSliceValue_interface_leaf[of seg2 t2 env s val]
        decode_val007[of env]
        assign_nil_interface[of env addr val]
        assignMapValue_interface_slices[of t3 m3 addr env seg3 path3 val]
        decode_anyBox[of env]
  by (simp add: dyn_def)

theorem dynamic_leaf_is_the_leaf_string_witness:
  "inferInterfaceValue (Some (TInterface, dyn ''7'')) [] ''007'' = Inr (TString, VString ''007'') \<and>
   assignMapValue plainEnv True dynamicMap VNil (named ''val'') [] ''42'' =
     (VMap [(''val'', VIface TString (VString ''42''))], None) \<and>
   assignSliceValue plainEnv True (TSlice TInterface) VNil indexMarker [] ''true'' =
     (VSlice [VIface TString (VString ''true'')], None) \<and>
   Unmarshal plainEnv ''val=007'' (Some (TPtr dynamicMap, VPtr VNil)) =
     (Some (TPtr dynamicMap, VPtr (VMap [(''val'', VIface TString (VString ''007''))])), None) \<and>
   assign plainEnv True TInterface VNil [] ''007'' = (VNil, Some UnsupportedType) \<and>
   assignMapValue plainEnv True (TMap TString (TSlice TInterface)) VNil (named ''k'') [] ''v'' =
     (VMap [], Some UnsupportedType) \<and>
   Unmarshal plainEnv ''v=007'' (Some (TPtr anyBox, VPtr (VStruct [VNil]))) =
     (Some (TPtr anyBox, VPtr (VStruct [VNil])), Some UnsupportedType)"
  using dynamic_leaf_is_the_leaf_string[of "Some (TInterface, dyn ''7'')" "''007''" dynamicMap VNil True
          plainEnv "named ''val''" "TSlice TInterface" indexMarker VNil
          "TMap TString (TSlice TInterface)" VNil "named ''k''" "[]"]
        dynamic_leaf_is_the_leaf_string[of None "''42''" dynamicMap VNil True
          plainEnv "named ''val''" "TSlice TInterface" indexMarker VNil
          "TMap TString (TSlice TInterface)" VNil "named ''k''" "[]"]
        dynamic_leaf_is_the_leaf_string[of None "''true''" dynamicMap VNil True
          plainEnv "named ''val''" "TSlice TInterface" indexMarker VNil
          "TMap TString (TSlice TInterface)" VNil "named ''k''" "[]"]
        dynamic_leaf_is_the_leaf_string[of None "''v''" dynamicMap VNil True
          plainEnv "named ''val''" "TSlice TInterface" indexMarker VNil
          "TMap TString (TSlice TInterface)" VNil "named ''k''" "[]"]
        fairOrder_plainEnv
  by (simp add: dynamicMap_def mapEntries_def sliceElems_def named_def indexMarker_def)

subsection \<open>Index markers\<close>

lemma inferInterfaceValue_index:
  assumes "Index seg"
  shows "\<exists>et ev. inferInterfaceValue None rest val = Inr (et, ev) \<and>
           inferInterfaceValue v (seg # rest) val =
             (case existingSlice v of
                Inl e \<Rightarrow> Inl e
              | Inr xs \<Rightarrow> Inr (TSlice TInterface, VSlice (xs @ [VIface et ev])))"
proof -
  obtain et ev where "inferInterfaceValue None rest val = Inr (et, ev)"
    using inferInterfaceValue_None_total by (metis surj_pair)
  with assms show ?thesis by (simp split: sum.splits)
qed

text \<open>
  The sequence that the new element is appended to: none when the slot is empty, the elements
  of the \<open>[]interface{}\<close> that the slot holds.  When the slot holds a string or a map, the
  unchecked type assertion of \<open>inferSliceValue\<close> panics.
\<close>

lemma existingSlice_cases:
  "existingSlice None = Inr []"
  "existingSlice (Some (TInterface, VNil)) = Inr []"
  "existingSlice (Some (TInterface, VIface (TSlice TInterface) (VSlice xs))) = Inr xs"
  "existingSlice (Some (TSlice TInterface, VSlice xs)) = Inr xs"
  "existingSlice (Some (TInterface, VIface TString (VString s))) =
     Inl (Panic ''interface conversion: not []interface {}'')"
  "existingSlice (Some (TInterface, VIface (TMap TString TInterface) (VMap es))) =
     Inl (Panic ''interface conversion: not []interface {}'')"
  by (simp_all add: existingSlice_def isNil_def dynamicOf_def sliceElems_def)

lemma ParseQuery_items:
  "ParseQuery ''items[]=a&items[]=b&items[]=c'' = ([(''items[]'', [''a'', ''b'', ''c''])], None)"
  by code_simp

lemma parseKey_items: "parseKey ''items[]'' = Inr [named ''items'', indexMarker]"
  by code_simp

lemma decode_items:
  assumes "fairOrder env"
  shows "Unmarshal env ''items[]=a&items[]=b&items[]=c'' (Some (TPtr dynamicMap, VPtr VNil)) =
         (Some (TPtr dynamicMap,
                VPtr (VMap [(''items'', VIface (TSlice TInterface)
                                (VSlice [dyn ''a'', dyn ''b'', dyn ''c'']))])), None)"
    using fairOrder_single[OF assms]
    by (simp add: Unmarshal_def ParseQuery_items unmarshalForm_def parseKey_items
        TrimSpace_def isSpace_def assign.simps deref_def reref_def named_def indexMarker_def
        assignMapValue.simps mapEntries_def existingSlice_def existingMap_def isNil_def
        dynamicOf_def sliceElems_def dynamicMap_def dyn_def keyAssignable_def)

lemma ParseQuery_data:
  "ParseQuery ''data[items][]=a&data[items][]=b'' = ([(''data[items][]'', [''a'', ''b''])], None)"
  by code_simp

lemma parseKey_data:
  "parseKey ''data[items][]'' = Inr [named ''data'', named ''items'', indexMarker]"
  by code_simp

lemma decode_data:
  assumes "fairOrder env"
  shows "Unmarshal env ''data[items][]=a&data[items][]=b'' (Some (TPtr dynamicMap, VPtr VNil)) =
         (Some (TPtr dynamicMap,
                VPtr (VMap [(''data'', VIface dynamicMap
                               (VMap [(''items'', VIface (TSlice TInterface)
                                         (VSlice [dyn ''a'', dyn ''b'']))]))])), None)"
    using fairOrder_single[OF assms]
    by (simp add: Unmarshal_def ParseQuery_data unmarshalForm_def parseKey_data
        TrimSpace_def isSpace_def assign.simps deref_def reref_def named_def indexMarker_def
        assignMapValue.simps mapEntries_def existingSlice_def existingMap_def isNil_def
        dynamicOf_def sliceElems_def dynamicMap_def dyn_def keyAssignable_def valueOf_def
        Let_def)

text \<open>
  In a field of interface type the first index marker builds the sequence by type inference.
  The second finds the field non-nil; \<open>assignInterfaceValue\<close> then calls \<open>assign\<close> on
  \<open>v.Elem()\<close>, which is a copy that cannot be set, and the \<open>Set\<close> of \<open>assignSliceValue\<close>
  panics.
\<close>

lemma ParseQuery_vs: "ParseQuery ''v[]=a&v[]=b'' = ([(''v[]'', [''a'', ''b''])], None)"
  by code_simp

lemma parseKey_vs: "parseKey ''v[]'' = Inr [named ''v'', indexMarker]"
  by code_simp

lemma decode_anyBox_index:
  assumes "fairOrder env"
  shows "Unmarshal env ''v[]=a&v[]=b'' (Some (TPtr anyBox, VPtr (VStruct [VNil]))) =
           (Some (TPtr anyBox, VPtr (VStruct [VIface (TSlice TInterface) (VSlice [dyn ''a''])])),
            Some (Panic ''reflect: reflect.Value.Set using unaddressable value''))"
proof -
  have k: "kindOf anyBox = KStruct" by (simp add: anyBox_def)
  have f: "findStructField anyBox ''v'' = Some 0"
    by (simp add: findStructField_def tags_anyBox)
  have fs: "fieldsOf anyBox = [(''V'', ''v'', TInterface)]"
    by (simp add: anyBox_def)
  have i1: "assign env True TInterface VNil [indexMarker] ''a'' =
          (VIface (TSlice TInterface) (VSlice [dyn ''a'']), None)"
    by (simp add: assign.simps deref_def reref_def assignInterfaceValue.simps indexMarker_def
        existingSlice_def isNil_def setValue_def dyn_def)
  have i2: "assign env True TInterface (VIface (TSlice TInterface) (VSlice [dyn ''a'']))
              [indexMarker] ''b'' =
          (VIface (TSlice TInterface) (VSlice [dyn ''a'']),
           Some (Panic ''reflect: reflect.Value.Set using unaddressable value''))"
    by (simp add: assign.simps deref_def reref_def assignInterfaceValue.simps indexMarker_def
        assignSliceValue.simps setValue_def dyn_def)
  have a1: "assign env True anyBox (VStruct [VNil]) [named ''v'', indexMarker] ''a'' =
          (VStruct [VIface (TSlice TInterface) (VSlice [dyn ''a''])], None)"
    by (simp add: assign_struct_step[OF k] assignStructField.simps f fs named_def exported_def i1)
  have a2: "assign env True anyBox (VStruct [VIface (TSlice TInterface) (VSlice [dyn ''a''])])
              [named ''v'', indexMarker] ''b'' =
          (VStruct [VIface (TSlice TInterface) (VSlice [dyn ''a''])],
           Some (Panic ''reflect: reflect.Value.Set using unaddressable value''))"
    by (simp add: assign_struct_step[OF k] assignStructField.simps f fs named_def exported_def i2)
  show ?thesis
    using fairOrder_single[OF assms] k a1 a2
    by (simp add: Unmarshal_def ParseQuery_vs unmarshalForm_def parseKey_vs
        TrimSpace_def isSpace_def)
qed

lemma index_after_string_panics:
  "assign env True dynamicMap (VMap [(''a'', dyn x)]) [named ''a'', indexMarker] y =
     (VMap [(''a'', dyn x)], Some (Panic ''interface conversion: not []interface {}''))"
  by (simp add: assign_map_step dynamicMap_def assignMapValue.simps named_def indexMarker_def
      mapEntries_def dyn_def existingSlice_def isNil_def dynamicOf_def keyAssignable_def)

text \<open>
  Claim C4.  In type inference an index marker appends exactly one new element, inferred from
  no prior value and the rest of the path, to the sequence that the slot holds (the empty one
  when the slot is empty) and keeps the elements already there, in their order; nothing is
  merged by position.  Decoding \<open>items[]=a&items[]=b&items[]=c\<close> into a dynamic mapping
  yields the three strings in input order under \<open>items\<close>, and so it is below a named segment
  (\<open>data[items][]\<close>).  But not every index marker in a dynamic slot appends.  In a field of
  interface type the second index marker panics, because the sequence is reached through the
  copy \<open>v.Elem()\<close>; and when the slot holds a string or a map the type assertion of
  \<open>inferSliceValue\<close> panics.
\<close>

theorem index_marker_appends_new_element:
  "(Index seg \<longrightarrow>
      (\<exists>et ev. inferInterfaceValue None rest val = Inr (et, ev) \<and>
               inferInterfaceValue v (seg # rest) val =
                 (case existingSlice v of
                    Inl e \<Rightarrow> Inl e
                  | Inr xs \<Rightarrow> Inr (TSlice TInterface, VSlice (xs @ [VIface et ev]))))) \<and>
   existingSlice None = Inr [] \<and>
   existingSlice (Some (TInterface, VIface (TSlice TInterface) (VSlice ys))) = Inr ys \<and>
   existingSlice (Some (TSlice TInterface, VSlice ys)) = Inr ys \<and>
   existingSlice (Some (TInterface, VIface TString (VString s))) =
     Inl (Panic ''interface conversion: not []interface {}'') \<and>
   existingSlice (Some (TInterface, VIface (TMap TString TInterface) (VMap es))) =
     Inl (Panic ''interface conversion: not []interface {}'') \<and>
   (fairOrder env \<longrightarrow>
      Unmarshal env ''items[]=a&items[]=b&items[]=c'' (Some (TPtr dynamicMap, VPtr VNil)) =
        (Some (TPtr dynamicMap,
               VPtr (VMap [(''items'', VIface (TSlice TInterface)
                               (VSlice [dyn ''a'', dyn ''b'', dyn ''c'']))])), None)) \<and>
   (fairOrder env \<longrightarrow>
      Unmarshal env ''data[items][]=a&data[items][]=b'' (Some (TPtr dynamicMap, VPtr VNil)) =
        (Some (TPtr dynamicMap,
               VPtr (VMap [(''data'', VIface dynamicMap
                              (VMap [(''items'', VIface (TSlice TInterface)
                                        (VSlice [dyn ''a'', dyn ''b'']))]))])), None)) \<and>
   (fairOrder env \<longrightarrow>
      Unmarshal env ''v[]=a&v[]=b'' (Some (TPtr anyBox, VPtr (VStruct [VNil]))) =
        (Some (TPtr anyBox, VPtr (VStruct [VIface (TSlice TInterface) (VSlice [dyn ''a''])])),
         Some (Panic ''reflect: reflect.Value.Set using unaddressable value''))) \<and>
   assign env True dynamicMap (VMap [(''a'', dyn x)]) [named ''a'', indexMarker] y =
     (VMap [(''a'', dyn x)], Some (Panic ''interface conversion: not []interface {}''))"
  using inferInterfaceValue_index[of seg rest val v] existingSlice_cases(1)
        existingSlice_cases(3)[of ys] existingSlice_cases(4)[of ys] existingSlice_cases(5)[of s]
        existingSlice_cases(6)[of es] decode_items[of env] decode_data[of env]
        decode_anyBox_index[of env] index_after_string_panics[of env x y]
  by blast

theorem index_marker_appends_new_element_witness:
  "inferInterfaceValue (Some (TInterface, VIface (TSlice TInterface) (VSlice [dyn ''a''])))
      [indexMarker] ''b'' = Inr (TSlice TInterface, VSlice [dyn ''a'', dyn ''b'']) \<and>
   Unmarshal plainEnv ''items[]=a&items[]=b&items[]=c'' (Some (TPtr dynamicMap, VPtr VNil)) =
     (Some (TPtr dynamicMap,
            VPtr (VMap [(''items'', VIface (TSlice TInterface)
                            (VSlice [dyn ''a'', dyn ''b'', dyn ''c'']))])), None) \<and>
   Unmarshal plainEnv ''data[items][]=a&data[items][]=b'' (Some (TPtr dynamicMap, VPtr VNil)) =
     (Some (TPtr dynamicMap,
            VPtr (VMap [(''data'', VIface dynamicMap
                           (VMap [(''items'', VIface (TSlice TInterface)
                                     (VSlice [dyn ''a'', dyn ''b'']))]))])), None) \<and>
   Unmarshal plainEnv ''v[]=a&v[]=b'' (Some (TPtr anyBox, VPtr (VStruct [VNil]))) =
     (Some (TPtr anyBox, VPtr (VStruct [VIface (TSlice TInterface) (VSlice [dyn ''a''])])),
      Some (Panic ''reflect: reflect.Value.Set using unaddressable value''))"
proof -
  note T = index_marker_appends_new_element[of indexMarker "[]" "''b''"
          "Some (TInterface, VIface (TSlice TInterface) (VSlice [dyn ''a'']))" "[dyn ''a'']"
          "[]" "[]" plainEnv "[]" "[]"]
  have ix: "Index indexMarker" by (simp add: indexMarker_def)
  from T ix have A: "inferInterfaceValue (Some (TInterface, VIface (TSlice TInterface) (VSlice [dyn ''a''])))
      [indexMarker] ''b'' = Inr (TSlice TInterface, VSlice [dyn ''a'', dyn ''b''])"
    by (auto simp: dyn_def)
  from T fairOrder_plainEnv A show ?thesis by blast
qed

subsection \<open>Maps of typed sequences\<close>

lemma assignMapValue_slice_path:
  assumes "kindOf (elemOf t) = KSlice"
  shows "assignMapValue env addr t v seg path val = assignMapValue env addr t v seg [] val"
  using assms by (simp add: assignMapValue.simps Let_def)

lemma assignMapValue_slice:
  assumes "kindOf (elemOf t) = KSlice" and "\<not> (v = VNil \<and> \<not> addr)" and "keyAssignable t"
  shows "assignMapValue env addr t v seg path val =
           (case assignLeaf env True (elemOf (elemOf t)) (zero (elemOf (elemOf t))) val of
              (e, None) \<Rightarrow>
                (VMap (map_set (mapEntries v) (Key seg)
                   (VSlice ((case map_of (mapEntries v) (Key seg) of
                               Some s \<Rightarrow> sliceElems s | None \<Rightarrow> []) @ [e]))), None)
            | (e, Some err) \<Rightarrow> (VMap (mapEntries v), Some err))"
  using assms by (simp add: assignMapValue.simps Let_def split: prod.splits option.splits)

lemma assignMapValue_key_type:
  assumes "\<not> keyAssignable t" and "\<not> (v = VNil \<and> \<not> addr)"
  shows "assignMapValue env addr t v seg path val =
           (VMap (mapEntries v),
            Some (Panic ''reflect.Value.MapIndex: value of type string is not assignable''))"
  using assms by (simp add: assignMapValue.simps)

lemma assign_map_of_slices_path:
  assumes "kindOf t = KMap" and "kindOf (elemOf t) = KSlice"
  shows "assign env addr t v (seg # rest) val = assign env addr t v [seg] val"
  using assms assignMapValue_slice_path[of t env addr v seg rest val]
  by (simp add: assign_map_step)

lemma tags_holder: "tags holder = [\<lparr>Name = ''m'', Omit = False, Ignore = False\<rparr>]"
  by code_simp

lemma assignLeaf_string: "assignLeaf env True TString v val = (VString val, None)"
  by (simp add: assignLeaf_def asUnmarshaler_def unmarshalerOfConcrete_def unmarshalerOf_def
      setScalar_def setValue_def)

lemma assign_holder:
  "assign env True holder (VStruct [mv]) (named ''m'' # named k # rest) val =
     (VStruct [VMap (map_set (mapEntries mv) k
                 (VSlice ((case map_of (mapEntries mv) k of
                             Some s \<Rightarrow> sliceElems s | None \<Rightarrow> []) @ [VString val])))], None)"
proof -
  have k: "kindOf holder = KStruct" by (simp add: holder_def)
  have f: "findStructField holder ''m'' = Some 0"
    by (simp add: findStructField_def tags_holder)
  have fs: "fieldsOf holder = [(''M'', ''m'', TMap TString (TSlice TString))]"
    by (simp add: holder_def)
  have m: "assign env True (TMap TString (TSlice TString)) mv (named k # rest) val =
     (VMap (map_set (mapEntries mv) k
                 (VSlice ((case map_of (mapEntries mv) k of
                             Some s \<Rightarrow> sliceElems s | None \<Rightarrow> []) @ [VString val]))), None)"
    by (simp add: assign_map_step assignMapValue_slice assignLeaf_string named_def)
  show ?thesis
    by (simp add: assign_struct_step[OF k] assignStructField.simps f fs named_def exported_def
        m[unfolded named_def])
qed

lemma ParseQuery_mk1: "ParseQuery ''m[k][]=v'' = ([(''m[k][]'', [''v''])], None)"
  by code_simp

lemma ParseQuery_mk2: "ParseQuery ''m[k]=v'' = ([(''m[k]'', [''v''])], None)"
  by code_simp

lemma parseKey_mk1: "parseKey ''m[k][]'' = Inr [named ''m'', named ''k'', indexMarker]"
  by code_simp

lemma parseKey_mk2: "parseKey ''m[k]'' = Inr [named ''m'', named ''k'']"
  by code_simp

lemma decode_holder:
  assumes "fairOrder env"
  shows "Unmarshal env ''m[k][]=v'' (Some (TPtr holder, VPtr (VStruct [VNil]))) =
           (Some (TPtr holder, VPtr (VStruct [VMap [(''k'', VSlice [VString ''v''])]])), None)"
    and "Unmarshal env ''m[k]=v'' (Some (TPtr holder, VPtr (VStruct [VNil]))) =
           (Some (TPtr holder, VPtr (VStruct [VMap [(''k'', VSlice [VString ''v''])]])), None)"
proof -
  have k: "kindOf holder = KStruct" by (simp add: holder_def)
  show "Unmarshal env ''m[k][]=v'' (Some (TPtr holder, VPtr (VStruct [VNil]))) =
           (Some (TPtr holder, VPtr (VStruct [VMap [(''k'', VSlice [VString ''v''])]])), None)"
    using fairOrder_single[OF assms] k
    by (simp add: Unmarshal_def ParseQuery_mk1 unmarshalForm_def parseKey_mk1
        TrimSpace_def isSpace_def assign_holder mapEntries_def)
  show "Unmarshal env ''m[k]=v'' (Some (TPtr holder, VPtr (VStruct [VNil]))) =
           (Some (TPtr holder, VPtr (VStruct [VMap [(''k'', VSlice [VString ''v''])]])), None)"
    using fairOrder_single[OF assms] k
    by (simp add: Unmarshal_def ParseQuery_mk2 unmarshalForm_def parseKey_mk2
        TrimSpace_def isSpace_def assign_holder mapEntries_def)
qed

text \<open>
  Claim C10 (as amended).  When the element type of a mapping is a typed sequence, an
  assignment under a key of the mapping ignores every path segment after that key: the
  result is the same for every remaining path.  The leaf string is assigned to a fresh
  element of the sequence's element type.  When that succeeds, exactly this one element is
  appended to the sequence under the key; when it fails (the leaf does not parse as the
  element's scalar kind, or the element type is not a scalar), its error is returned and
  nothing is appended.  All this for a mapping whose key type takes a string; for any other
  key type the lookup of the key panics.  The keys \<open>m[k][]\<close> and \<open>m[k]\<close> give identical
  results, for a mapping at the root and for one in the field \<open>m\<close> of a record.
\<close>

theorem typed_sequence_in_map_ignores_remaining_path:
  "(kindOf (elemOf t) = KSlice \<longrightarrow>
      assignMapValue env addr t v seg path val = assignMapValue env addr t v seg [] val) \<and>
   (kindOf (elemOf t) = KSlice \<and> \<not> (v = VNil \<and> \<not> addr) \<and> keyAssignable t \<longrightarrow>
      assignMapValue env addr t v seg path val =
        (case assignLeaf env True (elemOf (elemOf t)) (zero (elemOf (elemOf t))) val of
           (e, None) \<Rightarrow>
             (VMap (map_set (mapEntries v) (Key seg)
                (VSlice ((case map_of (mapEntries v) (Key seg) of
                            Some s \<Rightarrow> sliceElems s | None \<Rightarrow> []) @ [e]))), None)
         | (e, Some err) \<Rightarrow> (VMap (mapEntries v), Some err))) \<and>
   (\<not> keyAssignable t \<and> \<not> (v = VNil \<and> \<not> addr) \<longrightarrow>
      assignMapValue env addr t v seg path val =
        (VMap (mapEntries v),
         Some (Panic ''reflect.Value.MapIndex: value of type string is not assignable''))) \<and>
   (kindOf t = KMap \<and> kindOf (elemOf t) = KSlice \<longrightarrow>
      assign env addr t v (seg # path) val = assign env addr t v [seg] val) \<and>
   assign env True holder (VStruct [mv]) (named ''m'' # named k # path) val =
     (VStruct [VMap (map_set (mapEntries mv) k
                 (VSlice ((case map_of (mapEntries mv) k of
                             Some s \<Rightarrow> sliceElems s | None \<Rightarrow> []) @ [VString val])))], None) \<and>
   (fairOrder env \<longrightarrow>
      Unmarshal env ''m[k][]=v'' (Some (TPtr holder, VPtr (VStruct [VNil]))) =
        (Some (TPtr holder, VPtr (VStruct [VMap [(''k'', VSlice [VString ''v''])]])), None) \<and>
      Unmarshal env ''m[k]=v'' (Some (TPtr holder, VPtr (VStruct [VNil]))) =
        (Some (TPtr holder, VPtr (VStruct [VMap [(''k'', VSlice [VString ''v''])]])), None))"
  using assignMapValue_slice_path[of t env addr v seg path val]
        assignMapValue_slice[of t v addr env seg path val]
        assignMapValue_key_type[of t v addr env seg path val]
        assign_map_of_slices_path[of t env addr v seg path val]
        assign_holder[of env mv k path val]
        decode_holder[of env]
  by blast

lemma assignLeaf_go: "assignLeaf plainEnv True TString (VString []) ''go'' = (VString ''go'', None)"
  by (rule assignLeaf_string)

theorem typed_sequence_in_map_ignores_remaining_path_witness:
  "assignMapValue plainEnv True (TMap TString (TSlice TString))
      (VMap [(''tags'', VSlice [VString ''a''])]) (named ''tags'') [indexMarker] ''go'' =
     (VMap [(''tags'', VSlice [VString ''a'', VString ''go''])], None) \<and>
   assignMapValue plainEnv True (TMap (TNamed ''K'' TString) (TSlice TString))
      (VMap []) (named ''tags'') [indexMarker] ''go'' =
     (VMap [], Some (Panic ''reflect.Value.MapIndex: value of type string is not assignable'')) \<and>
   assign plainEnv True (TMap TString (TSlice TString))
      (VMap [(''tags'', VSlice [VString ''a''])]) [named ''tags'', indexMarker] ''go'' =
   assign plainEnv True (TMap TString (TSlice TString))
      (VMap [(''tags'', VSlice [VString ''a''])]) [named ''tags''] ''go'' \<and>
   Unmarshal plainEnv ''m[k][]=v'' (Some (TPtr holder, VPtr (VStruct [VNil]))) =
     (Some (TPtr holder, VPtr (VStruct [VMap [(''k'', VSlice [VString ''v''])]])), None) \<and>
   Unmarshal plainEnv ''m[k]=v'' (Some (TPtr holder, VPtr (VStruct [VNil]))) =
     (Some (TPtr holder, VPtr (VStruct [VMap [(''k'', VSlice [VString ''v''])]])), None)"
proof -
  note T = typed_sequence_in_map_ignores_remaining_path[of "TMap TString (TSlice TString)"
          plainEnv True "VMap [(''tags'', VSlice [VString ''a''])]" "named ''tags''"
          "[indexMarker]" "''go''" VNil "''k''"]
  note U = typed_sequence_in_map_ignores_remaining_path[of "TMap (TNamed ''K'' TString) (TSlice TString)"
          plainEnv True "VMap []" "named ''tags''"
          "[indexMarker]" "''go''" VNil "''k''"]
  from T[THEN conjunct2, THEN conjunct1] assignLeaf_go have app:
    "assignMapValue plainEnv True (TMap TString (TSlice TString))
      (VMap [(''tags'', VSlice [VString ''a''])]) (named ''tags'') [indexMarker] ''go'' =
     (VMap [(''tags'', VSlice [VString ''a'', VString ''go''])], None)"
    by (simp add: mapEntries_def sliceElems_def named_def)
  from U[THEN conjunct2, THEN conjunct2, THEN conjunct1] have pan:
    "assignMapValue plainEnv True (TMap (TNamed ''K'' TString) (TSlice TString))
      (VMap []) (named ''tags'') [indexMarker] ''go'' =
     (VMap [], Some (Panic ''reflect.Value.MapIndex: value of type string is not assignable''))"
    by (simp add: mapEntries_def keyAssignable_def)
  from T[THEN conjunct2, THEN conjunct2, THEN conjunct2, THEN conjunct1] have same:
    "assign plainEnv True (TMap TString (TSlice TString))
      (VMap [(''tags'', VSlice [VString ''a''])]) [named ''tags'', indexMarker] ''go'' =
     assign plainEnv True (TMap TString (TSlice TString))
      (VMap [(''tags'', VSlice [VString ''a''])]) [named ''tags''] ''go''"
    by simp
  from T fairOrder_plainEnv have dec:
    "Unmarshal plainEnv ''m[k][]=v'' (Some (TPtr holder, VPtr (VStruct [VNil]))) =
       (Some (TPtr holder, VPtr (VStruct [VMap [(''k'', VSlice [VString ''v''])]])), None) \<and>
     Unmarshal plainEnv ''m[k]=v'' (Some (TPtr holder, VPtr (VStruct [VNil]))) =
       (Some (TPtr holder, VPtr (VStruct [VMap [(''k'', VSlice [VString ''v''])]])), None)"
    by blast
  show ?thesis using app pan same dec by blast
qed

text \<open>
  Claim C10 as stated fails: a pair whose leaf cannot be assigned to the element type appends
  nothing.  Decoding \<open>k=abc\<close> into a \<open>map[string][]int64\<close> fails with the error of the integer
  parse, and the map stays empty.
\<close>

theorem typed_sequence_leaf_not_assignable_counterexample:
  "Unmarshal plainEnv ''k=abc'' (Some (TPtr intLists, VPtr VNil)) =
     (Some (TPtr intLists, VPtr (VMap [])), Some SetIntError)"
  by code_simp

subsection \<open>Repeated keys\<close>

lemma ParseQuery_a12: "ParseQuery ''a=1&a=2'' = ([(''a'', [''1'', ''2''])], None)"
  by code_simp

lemma parseKey_a: "parseKey ''a'' = Inr [named ''a'']"
  by code_simp

lemma ParseQuery_names: "ParseQuery ''name=john&name=jane'' = ([(''name'', [''john'', ''jane''])], None)"
  by code_simp

lemma parseKey_name: "parseKey ''name'' = Inr [named ''name'']"
  by code_simp

lemma tags_Person:
  "tags Person = [\<lparr>Name = ''name'', Omit = False, Ignore = False\<rparr>,
                  \<lparr>Name = ''age'', Omit = True, Ignore = False\<rparr>,
                  \<lparr>Name = ''pronouns'', Omit = False, Ignore = False\<rparr>]"
  by code_simp

lemma assignPairs_append:
  "assignPairs env addr t v (ps @ qs) =
     (case assignPairs env addr t v ps of
        (v', Some e) \<Rightarrow> (v', Some e)
      | (v', None) \<Rightarrow> assignPairs env addr t v' qs)"
  by (induction ps arbitrary: v) (auto split: prod.splits option.splits)

lemma assignAll_assignPairs:
  "assignAll env addr t v path vals = assignPairs env addr t v (map (Pair path) vals)"
  by (induction vals arbitrary: v) (auto split: prod.splits option.splits)

lemma unmarshalForm_loop_assignPairs:
  assumes "\<forall>(rawKey, vals) \<in> set vs. \<exists>path. parseKey rawKey = Inr path"
  shows "unmarshalForm_loop env addr t v vs = assignPairs env addr t v (flatten vs)"
  using assms
proof (induction vs arbitrary: v)
  case Nil
  then show ?case by simp
next
  case (Cons kv vs)
  obtain rawKey vals where kv: "kv = (rawKey, vals)" by (cases kv)
  with Cons.prems obtain path where p: "parseKey rawKey = Inr path" by auto
  from Cons have IH: "\<And>v. unmarshalForm_loop env addr t v vs = assignPairs env addr t v (flatten vs)"
    by simp
  show ?case
    by (simp add: kv p assignPairs_append assignAll_assignPairs IH split: prod.splits option.splits)
qed

text \<open>In a record, a later assignment to a string field replaces the earlier one.\<close>

lemma decode_names:
  assumes "fairOrder env"
  shows "Unmarshal env ''name=john&name=jane'' (Some (TPtr Person, VPtr (zero Person))) =
         (Some (TPtr Person, VPtr (VStruct [VString ''jane'', VInt 0, VNil])), None)"
proof -
  have k: "kindOf Person = KStruct" by (simp add: Person_def)
  have f: "findStructField Person ''name'' = Some 0"
    by (simp add: findStructField_def tags_Person)
  have fs: "fieldsOf Person = [(''Name'', ''name'', TString), (''Age'', ''age,omitempty'', TInt 64),
               (''Pronouns'', ''pronouns'', TSlice TString)]"
    by (simp add: Person_def)
  have z: "zero Person = VStruct [VString [], VInt 0, VNil]"
    by (simp add: Person_def)
  have leaf: "\<And>old s. assign env True TString old [] s = (VString s, None)"
    by (simp add: assign.simps deref_def reref_def assignLeaf_def asUnmarshaler_def
        unmarshalerOfConcrete_def unmarshalerOf_def setScalar_def setValue_def)
  have step: "\<And>a b c s. assign env True Person (VStruct [a, b, c]) [named ''name''] s =
                (VStruct [VString s, b, c], None)"
    by (simp add: assign_struct_step[OF k] assignStructField.simps f fs named_def exported_def leaf)
  show ?thesis
    using fairOrder_single[OF assms]
    by (simp add: Unmarshal_def ParseQuery_names unmarshalForm_def parseKey_name
        TrimSpace_def isSpace_def k z step Person_def[symmetric])
qed

text \<open>
  Claim C3 (failing input).  The claim promises that a later assignment to a scalar slot
  replaces the earlier one.  For the scalar slot that is an entry of a map with string
  elements this does not happen: the second assignment finds the entry, reads it with
  \<open>MapIndex\<close>, which yields a copy that is not addressable, and \<open>setScalar\<close> panics in
  \<open>SetString\<close>.  Decoding \<open>a=1&a=2\<close> into a \<open>map[string]string\<close> stops with that
  panic, for whatever order the runtime visits the entries in.
\<close>

theorem repeated_key_into_string_map_panics:
  "fairOrder env \<longrightarrow>
     Unmarshal env ''a=1&a=2'' (Some (TPtr stringMap, VPtr VNil)) =
       (Some (TPtr stringMap, VPtr (VMap [(''a'', VString ''1'')])),
        Some (Panic ''reflect: reflect.Value.Set using unaddressable value''))"
proof
  assume "fairOrder env"
  then show "Unmarshal env ''a=1&a=2'' (Some (TPtr stringMap, VPtr VNil)) =
       (Some (TPtr stringMap, VPtr (VMap [(''a'', VString ''1'')])),
        Some (Panic ''reflect: reflect.Value.Set using unaddressable value''))"
    using fairOrder_single[of env]
    by (simp add: Unmarshal_def ParseQuery_a12 unmarshalForm_def parseKey_a
        TrimSpace_def isSpace_def assign.simps deref_def reref_def named_def
        assignMapValue.simps mapEntries_def assignLeaf_def asUnmarshaler_def
        unmarshalerOfConcrete_def unmarshalerOf_def setScalar_def setValue_def stringMap_def)
qed

theorem repeated_key_into_string_map_panics_witness:
  "fairOrder plainEnv \<and>
   Unmarshal plainEnv ''a=1&a=2'' (Some (TPtr stringMap, VPtr VNil)) =
     (Some (TPtr stringMap, VPtr (VMap [(''a'', VString ''1'')])),
      Some (Panic ''reflect: reflect.Value.Set using unaddressable value''))"
  using repeated_key_into_string_map_panics[of plainEnv] fairOrder_plainEnv
  by simp

subsection \<open>Empty and blank input\<close>

lemma TrimSpace_all_space:
  assumes "\<forall>c\<in>set s. isSpace c"
  shows "TrimSpace s = []"
  using assms by (auto simp: TrimSpace_def dest: set_dropWhileD)

lemma ParseQuery_empty: "ParseQuery [] = ([], None)"
  by (simp add: ParseQuery_def parseQuery.simps)

lemma Unmarshal_space:
  assumes "data \<noteq> []" "\<forall>c\<in>set data. isSpace c" "fairOrder env" "validTarget v"
  shows "Unmarshal env data v = (v, None)"
proof -
  from assms(4) obtain pt x where v: "v = Some (pt, VPtr x)"
    by (auto simp: validTarget_def split: option.splits prod.splits val.splits)
  with assms show ?thesis
    by (auto simp: Unmarshal_def validTarget_def TrimSpace_all_space ParseQuery_empty
        unmarshalForm_def fairOrder_empty Let_def)
qed

text \<open>
  Claim C6 (amended).  Empty input is rejected with an error before anything else is
  looked at, and the target is left as it was.  Input that is not empty and consists
  only of white space is accepted: for a target that passes the checks of \<open>Unmarshal\<close>
  no error is returned, and the target is left as it was.
\<close>

theorem empty_input_rejected_blank_input_accepted:
  "Unmarshal env [] v = (v, Some EmptyInput) \<and>
   (data \<noteq> [] \<and> (\<forall>c\<in>set data. isSpace c) \<and> fairOrder env \<and> validTarget v \<longrightarrow>
      Unmarshal env data v = (v, None))"
  using Unmarshal_space[of data env v]
  by (simp add: Unmarshal_def)

theorem empty_input_rejected_blank_input_accepted_witness:
  "Unmarshal plainEnv [] (Some (TPtr Person, VPtr (zero Person))) =
     (Some (TPtr Person, VPtr (zero Person)), Some EmptyInput) \<and>
   ''   '' \<noteq> [] \<and> list_all isSpace ''   '' \<and> fairOrder plainEnv \<and>
   validTarget (Some (TPtr Person, VPtr (zero Person))) \<and>
   Unmarshal plainEnv ''   '' (Some (TPtr Person, VPtr (zero Person))) =
     (Some (TPtr Person, VPtr (zero Person)), None)"
  using empty_input_rejected_blank_input_accepted[of plainEnv "Some (TPtr Person, VPtr (zero Person))"
          "''   ''"]
        fairOrder_plainEnv
  by (simp add: isSpace_def validTarget_def Person_def)

text \<open>
  Claim C6 as stated fails for blank input: three spaces, decoded into a \<open>Person\<close>,
  return no error.
\<close>

theorem blank_input_not_rejected_counterexample:
  "list_all isSpace ''   '' \<and>
   Unmarshal plainEnv ''   '' (Some (TPtr Person, VPtr (zero Person))) =
     (Some (TPtr Person, VPtr (zero Person)), None) \<and>
   snd (Unmarshal plainEnv ''   '' (Some (TPtr Person, VPtr (zero Person)))) = None"
  using Unmarshal_space[of "''   ''" plainEnv "Some (TPtr Person, VPtr (zero Person))"]
        fairOrder_plainEnv
  by (simp add: isSpace_def validTarget_def Person_def)

section \<open>Encoding: properties\<close>

subsection \<open>The traversal adds the emitted pairs\<close>

lemma seqE_skip [simp]: "seqE (Inr [] # rs) = seqE rs"
  by (simp split: sum.splits)

lemma seqE_Inl [simp]: "seqE (Inl e # rs) = Inl e"
  by simp

lemma seqE_Inr:
  "seqE (Inr ps # rs) = (case seqE rs of Inl e \<Rightarrow> Inl e | Inr qs \<Rightarrow> Inr (ps @ qs))"
  by simp

declare seqE.simps(2) [simp del]

lemma addAll_Nil [simp]: "addAll out [] = out"
  by (simp add: addAll_def)

lemma addAll_Cons [simp]: "addAll out (p # ps) = addAll (Add out (fst p) (snd p)) ps"
  by (simp add: addAll_def)

lemma addAll_append: "addAll out (ps @ qs) = addAll (addAll out ps) qs"
  by (simp add: addAll_def)

lemma lift_Nil: "lift out (Inr []) = Inr out"
  by (simp add: lift_def)

lemma lift_Inl [simp]: "lift out (Inl e) = Inl e"
  by (simp add: lift_def)

lemma lift_Inr [simp]: "lift out (Inr ps) = Inr (addAll out ps)"
  by (simp add: lift_def)

lemma lift_seqE_Cons:
  "lift out (seqE (r # rs)) =
     (case lift out r of Inl e \<Rightarrow> Inl e | Inr out' \<Rightarrow> lift out' (seqE rs))"
  by (auto simp: lift_def addAll_append seqE.simps split: sum.splits)

lemma marshaler_emit: "marshaler out path m = lift out (emitLeaf path m)"
  by (auto simp: marshaler_def emitLeaf_def lift_def split: sum.splits)

lemma marshalScalar_emit: "marshalScalar out path t v = lift out (emitScalar path t v)"
  by (auto simp: marshalScalar_def emitScalar_def lift_def split: sum.splits)

lemma marshal_emit:
  "marshalValue env out path pos addr ro t0 v0 = lift out (emitValue env path pos addr ro t0 v0)"
  "marshalStruct env out path pos addr tgs fs fvs =
     lift out (seqE (map (\<lambda>(tg, f, fv).
                      if skipField tg (snd (snd f)) fv then Inr []
                      else emitValue env (path @ [Name tg]) (pos @ [fst f]) addr
                             (\<not> exported (fst f)) (snd (snd f)) fv)
                   (zip tgs (zip fs fvs))))"
  "marshalMap env out path pos t es ks =
     lift out (seqE (map (\<lambda>k. case map_of es k of
                           None \<Rightarrow> Inr []
                         | Some mv \<Rightarrow>
                             if kindOf (elemOf t) = KInterface \<and> mv = VNil then Inr []
                             else emitValue env (path @ [keyText env t k]) (pos @ [k])
                                    False False (elemOf t) mv)
                   ks))"
  "marshalSlice env out path pos addr et i xs =
     lift out (seqE (map (\<lambda>(i, x). if kindOf et = KInterface \<and> x = VNil then Inr []
                         else emitValue env (path @ ['''']) (pos @ [FormatUint i]) addr False et x)
                   (enumerate i xs)))"
proof (induction env out path pos addr ro t0 v0 and env out path pos addr tgs fs fvs
         and env out path pos t es ks and env out path pos addr et i xs
       rule: marshalValue_marshalStruct_marshalMap_marshalSlice.induct)
  case (1 env out path pos addr ro t0 v0)
  show ?case
  proof (cases "kindOf t0 = KPointer \<and> v0 = VNil")
    case True
    then show ?thesis
      by (auto simp add: marshalValue.simps emitValue.simps lift_def)
  next
    case np: False
    obtain a t v where el: "elemM addr t0 v0 = (a, t, v)" by (cases "elemM addr t0 v0")
    show ?thesis
    proof (cases ro)
      case True
      with np el show ?thesis
        by (auto simp add: marshalValue.simps emitValue.simps lift_def)
    next
      case nro: False
      show ?thesis
      proof (cases "asMarshaler env a t v")
        case (Some m)
        with np el nro show ?thesis
          by (auto simp add: marshalValue.simps emitValue.simps marshaler_emit)
      next
        case None
        note IH = "1.IH"[OF np el[symmetric] refl nro None]
        show ?thesis
        proof (cases "kindOf t")
          case KStruct
          with np el nro None IH show ?thesis
            by (auto simp add: marshalValue.simps emitValue.simps structFields_def)
        next
          case KMap
          with np el nro None IH show ?thesis
            by (auto simp add: marshalValue.simps emitValue.simps)
        next
          case KSlice
          with np el nro None IH show ?thesis
            by (auto simp add: marshalValue.simps emitValue.simps sliceElems_def)
        next
          case KArray
          with np el nro None IH show ?thesis
            by (auto simp add: marshalValue.simps emitValue.simps arrayElems_def)
        next
          case KInterface
          show ?thesis
          proof (cases v)
            case (VIface dt dv)
            with np el nro None KInterface IH show ?thesis
              by (auto simp add: marshalValue.simps emitValue.simps)
          qed (use np el nro None KInterface in
                \<open>auto simp add: marshalValue.simps emitValue.simps lift_def\<close>)
        qed (use np el nro None in
              \<open>auto simp add: marshalValue.simps emitValue.simps marshalScalar_emit\<close>)
      qed
    qed
  qed
next
  case (5 env out path pos addr tg tgs f fs fv fvs)
  show ?case
  proof (cases "skipField tg (snd (snd f)) fv")
    case True
    with "5.IH"(1,2,3) show ?thesis
      by (auto simp add: skipField_def lift_seqE_Cons)
  next
    case False
    then have ns: "\<not> Ignore tg" "\<not> (Omit tg \<and> isEmptyValue (snd (snd f)) fv)" "Name tg \<noteq> []"
      by (auto simp: skipField_def)
    note mv = "5.IH"(4)[OF ns]
    show ?thesis
    proof (cases "emitValue env (path @ [Name tg]) (pos @ [fst f]) addr (\<not> exported (fst f))
                    (snd (snd f)) fv")
      case (Inl e)
      with mv ns False show ?thesis
        by (auto simp add: lift_seqE_Cons)
    next
      case (Inr ps)
      with mv have m: "marshalValue env out (path @ [Name tg]) (pos @ [fst f]) addr
                         (\<not> exported (fst f)) (snd (snd f)) fv = Inr (addAll out ps)"
        by simp
      from "5.IH"(5)[OF ns m] m Inr ns False show ?thesis
        by (auto simp add: lift_seqE_Cons)
    qed
  qed
next
  case (7 env out path pos t es k ks)
  show ?case
  proof (cases "map_of es k")
    case None
    with "7.IH"(1) show ?thesis
      by (auto simp add: lift_seqE_Cons)
  next
    case (Some mv)
    show ?thesis
    proof (cases "kindOf (elemOf t) = KInterface \<and> mv = VNil")
      case True
      with Some "7.IH"(2) show ?thesis
        by (auto simp add: lift_seqE_Cons)
    next
      case False
      note mvIH = "7.IH"(3)[OF Some False]
      show ?thesis
      proof (cases "emitValue env (path @ [keyText env t k]) (pos @ [k]) False False (elemOf t) mv")
        case (Inl e)
        with mvIH Some False show ?thesis
          by (auto simp add: lift_seqE_Cons)
      next
        case (Inr ps)
        with mvIH have m: "marshalValue env out (path @ [keyText env t k]) (pos @ [k]) False False
                             (elemOf t) mv = Inr (addAll out ps)"
          by simp
        from "7.IH"(4)[OF Some False m] m Inr Some False show ?thesis
          by (auto simp add: lift_seqE_Cons)
      qed
    qed
  qed
next
  case (9 env out path pos addr et i elem xs)
  show ?case
  proof (cases "kindOf et = KInterface \<and> elem = VNil")
    case True
    with "9.IH"(1) show ?thesis
      by (auto simp add: lift_seqE_Cons)
  next
    case False
    note mvIH = "9.IH"(2)[OF False]
    show ?thesis
    proof (cases "emitValue env (path @ ['''']) (pos @ [FormatUint i]) addr False et elem")
      case (Inl e)
      with mvIH False show ?thesis
        by (auto simp add: lift_seqE_Cons)
    next
      case (Inr ps)
      with mvIH have m: "marshalValue env out (path @ ['''']) (pos @ [FormatUint i]) addr False et elem =
                           Inr (addAll out ps)"
        by simp
      from "9.IH"(3)[OF False m] m Inr False show ?thesis
        by (auto simp add: lift_seqE_Cons)
    qed
  qed
qed (simp_all add: lift_def)

lemma lookup_Add:
  "lookup (Add out k x) k' = (if k' = k then lookup out k @ [x] else lookup out k')"
  by (induction out) (auto simp: lookup_def)

lemma keys_Add: "fst ` set (Add out k x) = insert k (fst ` set out)"
proof (induction out)
  case Nil
  show ?case by simp
next
  case (Cons a out)
  obtain k' xs where a: "a = (k', xs)" by (cases a)
  show ?case using Cons by (cases "k' = k") (simp_all add: a insert_commute)
qed

lemma onKey_append [simp]: "onKey k (ps @ qs) = onKey k ps @ onKey k qs"
  by (simp add: onKey_def)

lemma onKey_Nil [simp]: "onKey k [] = []"
  by (simp add: onKey_def)

lemma lookup_addAll: "lookup (addAll out ps) k = lookup out k @ map snd (onKey k ps)"
  by (induction ps arbitrary: out) (auto simp: lookup_Add onKey_def)

lemma keys_addAll: "fst ` set (addAll out ps) = fst ` set out \<union> fst ` set ps"
proof (induction ps arbitrary: out)
  case Nil
  show ?case by simp
next
  case (Cons p ps)
  show ?case by (simp add: Cons keys_Add)
qed

lemma concat_single:
  assumes "distinct ks" "k0 \<in> set ks" "\<forall>k\<in>set ks. k \<noteq> k0 \<longrightarrow> h k = []"
  shows "concat (map h ks) = h k0"
  using assms
proof (induction ks)
  case Nil
  then show ?case by simp
next
  case (Cons k ks)
  show ?case
  proof (cases "k = k0")
    case True
    with Cons.prems have "\<forall>k\<in>set ks. h k = []" by auto
    then have "concat (map h ks) = []" by simp
    with True show ?thesis by simp
  next
    case False
    with Cons show ?thesis by auto
  qed
qed

lemma concat_none:
  assumes "\<forall>k\<in>set ks. h k = []"
  shows "concat (map h ks) = []"
  using assms by simp

lemma onKey_concat_groups:
  assumes "distinct ks"
  shows "onKey k (concat (map (\<lambda>k'. onKey k' ps) ks)) = (if k \<in> set ks then onKey k ps else [])"
proof -
  have eq: "onKey k (concat (map (\<lambda>k'. onKey k' ps) ks)) = concat (map (\<lambda>k'. onKey k (onKey k' ps)) ks)"
    by (induction ks) auto
  have h: "\<And>k'. k' \<noteq> k \<Longrightarrow> onKey k (onKey k' ps) = []"
    by (auto simp: onKey_def filter_empty_conv)
  show ?thesis
  proof (cases "k \<in> set ks")
    case True
    have "concat (map (\<lambda>k'. onKey k (onKey k' ps)) ks) = onKey k (onKey k ps)"
      by (rule concat_single[OF assms True]) (use h in auto)
    with eq True show ?thesis by (simp add: onKey_def)
  next
    case False
    then have "\<forall>k'\<in>set ks. onKey k (onKey k' ps) = []" using h by metis
    with eq False show ?thesis by simp
  qed
qed

lemma mset_groups:
  assumes "distinct ks"
  shows "mset (concat (map (\<lambda>k. onKey k ps) ks)) = mset (filter (\<lambda>p. fst p \<in> set ks) ps)"
  using assms
proof (induction ks)
  case Nil
  then show ?case by simp
next
  case (Cons k ks)
  have "mset (onKey k ps) + mset (filter (\<lambda>p. fst p \<in> set ks) ps) =
        mset (filter (\<lambda>p. fst p = k \<or> fst p \<in> set ks) ps)"
    using Cons.prems by (induction ps) (auto simp: onKey_def)
  with Cons show ?case by simp
qed

lemma sorted_const: "\<forall>x\<in>set xs. x = c \<Longrightarrow> sorted (xs :: string list)"
  by (induction xs) auto

lemma sorted_groups:
  assumes "sorted ks"
  shows "sorted (map fst (concat (map (\<lambda>k. onKey k ps) ks)))"
  using assms
proof (induction ks)
  case Nil
  then show ?case by simp
next
  case (Cons k ks)
  have a: "\<forall>x\<in>set (map fst (onKey k ps)). x = k" by (auto simp: onKey_def)
  have b: "\<forall>y\<in>set (map fst (concat (map (\<lambda>k. onKey k ps) ks))). y \<in> set ks"
    by (auto simp: onKey_def)
  have "sorted (map fst (onKey k ps))"
    by (rule sorted_const[OF a])
  moreover have "sorted (map fst (concat (map (\<lambda>k. onKey k ps) ks)))"
    using Cons by simp
  moreover have "\<forall>x\<in>set (map fst (onKey k ps)). \<forall>y\<in>set (map fst (concat (map (\<lambda>k. onKey k ps) ks))). x \<le> y"
    using a b Cons.prems by auto
  ultimately show ?case
    by (simp add: sorted_append)
qed

lemma sort_key_groups:
  "sort_key fst ps = concat (map (\<lambda>k. onKey k ps) (sort (remdups (map fst ps))))"
proof (rule properties_for_sort_key)
  let ?ks = "sort (remdups (map fst ps))"
  have d: "distinct ?ks" by simp
  have s: "set ?ks = fst ` set ps" by simp
  show "mset (concat (map (\<lambda>k. onKey k ps) ?ks)) = mset ps"
  proof -
    have "filter (\<lambda>p. fst p \<in> set ?ks) ps = ps" using s by (simp add: filter_id_conv)
    with mset_groups[OF d, of ps] show ?thesis by simp
  qed
  show "sorted (map fst (concat (map (\<lambda>k. onKey k ps) ?ks)))"
    by (rule sorted_groups) simp
  fix p assume "p \<in> set (concat (map (\<lambda>k. onKey k ps) ?ks))"
  then have "p \<in> set ps" by (auto simp: onKey_def)
  then have "fst p \<in> set ?ks" using s by simp
  then have "onKey (fst p) (concat (map (\<lambda>k. onKey k ps) ?ks)) = onKey (fst p) ps"
    using onKey_concat_groups[OF d, of "fst p" ps] by simp
  moreover have "\<And>xs. filter (\<lambda>x. fst p = fst x) xs = onKey (fst p) xs"
    by (simp add: onKey_def eq_commute)
  ultimately show "filter (\<lambda>x. fst p = fst x) (concat (map (\<lambda>k. onKey k ps) ?ks)) =
                   filter (\<lambda>x. fst p = fst x) ps"
    by simp
qed

lemma lookup_Nil [simp]: "lookup [] k = []"
  by (simp add: lookup_def)

lemma Encode_addAll: "Encode (addAll [] ps) = joinAmp (map encodePair (sort_key fst ps))"
proof -
  let ?v = "addAll [] ps"
  have keys: "sort (remdups (map fst ?v)) = sort (remdups (map fst ps))"
  proof -
    have "set (map fst ?v) = set (map fst ps)" using keys_addAll[of "[]" ps] by simp
    then show ?thesis
      by (metis sorted_list_of_set_sort_remdups)
  qed
  have grp: "\<And>k. map (\<lambda>x. encodePair (k, x)) (lookup ?v k) = map encodePair (onKey k ps)"
    by (simp add: lookup_addAll onKey_def comp_def)
  have "Encode ?v = joinAmp (concat (map (\<lambda>k. map encodePair (onKey k ps)) (sort (remdups (map fst ps)))))"
    by (simp add: Encode_def keys grp)
  also have "concat (map (\<lambda>k. map encodePair (onKey k ps)) (sort (remdups (map fst ps)))) =
             map encodePair (concat (map (\<lambda>k. onKey k ps) (sort (remdups (map fst ps)))))"
    by (simp add: map_concat comp_def)
  finally show ?thesis by (simp add: sort_key_groups[symmetric])
qed

lemma samePerKey_refl [simp]: "samePerKey ps ps"
  by (simp add: samePerKey_def)

lemma samePerKey_append:
  "samePerKey ps ps' \<Longrightarrow> samePerKey qs qs' \<Longrightarrow> samePerKey (ps @ qs) (ps' @ qs')"
  by (simp add: samePerKey_def)

lemma samePerKey_mset:
  assumes "samePerKey ps qs"
  shows "mset ps = mset qs"
proof (rule multiset_eqI)
  fix p
  have "\<And>xs. count (mset xs) p = count (mset (onKey (fst p) xs)) p"
    by (simp add: onKey_def)
  with assms show "count (mset ps) p = count (mset qs) p"
    by (metis samePerKey_def)
qed

lemma samePerKey_sort:
  assumes "samePerKey ps qs"
  shows "sort_key fst ps = sort_key fst qs"
proof (rule properties_for_sort_key)
  show "mset (sort_key fst qs) = mset ps"
    using samePerKey_mset[OF assms] by simp
  show "sorted (map fst (sort_key fst qs))" by simp
  fix p
  have "filter (\<lambda>x. fst p = fst x) (sort_key fst qs) = filter (\<lambda>x. fst p = fst x) qs"
    by (metis (mono_tags, lifting) filter_cong sort_key_stable)
  moreover have "\<And>xs. filter (\<lambda>x. fst p = fst x) xs = onKey (fst p) xs"
    by (simp add: onKey_def eq_commute)
  ultimately show "filter (\<lambda>x. fst p = fst x) (sort_key fst qs) = filter (\<lambda>x. fst p = fst x) ps"
    using assms by (simp add: samePerKey_def)
qed

lemma renderPath_render:
  "renderPath path = (if path = [] then Inl (Panic ''index out of range'') else Inr (render path))"
proof -
  have "\<And>p. (if p = [] then ''[]'' else ''['' @ p @ '']'') = bracket p"
    by (simp add: bracket_def)
  then show ?thesis
    by (simp add: renderPath_def render_def split: list.splits)
qed

lemma seqE_Inr_iff:
  "seqE (map F xs) = Inr ps \<longleftrightarrow>
     (\<forall>x\<in>set xs. \<exists>qs. F x = Inr qs) \<and> ps = concat (map (\<lambda>x. projr (F x)) xs)"
proof (induction xs arbitrary: ps)
  case Nil
  then show ?case by auto
next
  case (Cons x xs)
  show ?case
  proof (cases "F x")
    case (Inl e)
    then show ?thesis by auto
  next
    case (Inr qs)
    show ?thesis
    proof (cases "seqE (map F xs)")
      case (Inl e)
      with Cons[of "concat (map (\<lambda>x. projr (F x)) xs)"] Inr show ?thesis
        by (auto simp: seqE_Inr)
    next
      case r: (Inr rs)
      with Cons[of rs] Inr show ?thesis
        by (auto simp: seqE_Inr)
    qed
  qed
qed

lemma seqE_Inl_if:
  assumes "x \<in> set xs" "F x = Inl e"
  shows "\<exists>e'. seqE (map F xs) = Inl e'"
proof (cases "seqE (map F xs)")
  case (Inl a)
  then show ?thesis by simp
next
  case (Inr ps)
  with assms show ?thesis by (auto simp: seqE_Inr_iff)
qed

lemma takeWhile_open:
  assumes "CHR ''['' \<notin> set k" "s = [] \<or> hd s = CHR ''[''"
  shows "takeWhile (\<lambda>c. c \<noteq> CHR ''['') (k @ s) = k"
  using assms by (induction k) (auto simp: takeWhile_eq_Nil_iff)

lemma takeWhile_close:
  assumes "CHR '']'' \<notin> set k"
  shows "takeWhile (\<lambda>c. c \<noteq> CHR '']'') (k @ CHR '']'' # s) = k"
  using assms by (induction k) auto

lemma brackets_head: "concat (map bracket q) = [] \<or> hd (concat (map bracket q)) = CHR ''[''"
  by (cases q) (auto simp: bracket_def)

lemma render_step_inj:
  assumes "plainKey k" "plainKey k'" "render (path @ k # q) = render (path @ k' # q')"
  shows "k = k'"
proof (cases path)
  case Nil
  with assms(3) have "k @ concat (map bracket q) = k' @ concat (map bracket q')"
    by (simp add: render_def)
  then have "takeWhile (\<lambda>c. c \<noteq> CHR ''['') (k @ concat (map bracket q)) =
             takeWhile (\<lambda>c. c \<noteq> CHR ''['') (k' @ concat (map bracket q'))"
    by simp
  then show ?thesis
    using assms(1,2) takeWhile_open[OF _ brackets_head, of k q] takeWhile_open[OF _ brackets_head, of k' q']
    by (simp add: plainKey_def)
next
  case (Cons p0 ps)
  with assms(3) have "k @ CHR '']'' # concat (map bracket q) = k' @ CHR '']'' # concat (map bracket q')"
    by (simp add: render_def bracket_def)
  then have "takeWhile (\<lambda>c. c \<noteq> CHR '']'') (k @ CHR '']'' # concat (map bracket q)) =
             takeWhile (\<lambda>c. c \<noteq> CHR '']'') (k' @ CHR '']'' # concat (map bracket q'))"
    by simp
  then show ?thesis
    using assms(1,2) by (simp add: plainKey_def takeWhile_close)
qed

lemma emitLeaf_keys: "emitLeaf path m = Inr ps \<Longrightarrow> p \<in> set ps \<Longrightarrow> fst p = render path \<and> path \<noteq> []"
  by (auto simp: emitLeaf_def renderPath_render split: sum.splits if_splits)

lemma emitScalar_keys: "emitScalar path t v = Inr ps \<Longrightarrow> p \<in> set ps \<Longrightarrow> fst p = render path \<and> path \<noteq> []"
  by (auto simp: emitScalar_def renderPath_render split: sum.splits if_splits)

lemma emit_keys:
  "emitValue env path pos addr ro t0 v0 = Inr ps \<Longrightarrow> p \<in> set ps \<Longrightarrow> \<exists>q. fst p = render (path @ q)"
proof (induction env path pos addr ro t0 v0 arbitrary: ps rule: emitValue.induct)
  case (1 env path pos addr ro t0 v0)
  from "1.prems" have np: "\<not> (kindOf t0 = KPointer \<and> v0 = VNil)"
    by (auto simp: emitValue.simps)
  obtain a t v where el: "elemM addr t0 v0 = (a, t, v)" by (cases "elemM addr t0 v0")
  from "1.prems" np el have nro: "\<not> ro"
    by (auto simp: emitValue.simps split: if_splits)
  show ?case
  proof (cases "asMarshaler env a t v")
    case (Some m)
    with "1.prems" np el nro have "emitLeaf path m = Inr ps"
      by (simp add: emitValue.simps)
    from emitLeaf_keys[OF this "1.prems"(2)] show ?thesis
      by (metis append_Nil2)
  next
    case None
    note IH = "1.IH"[OF np el[symmetric] refl nro None]
    have scalar: "emitScalar path t v = Inr ps \<Longrightarrow> ?thesis"
    proof -
      assume "emitScalar path t v = Inr ps"
      from emitScalar_keys[OF this "1.prems"(2)] show ?thesis by (metis append_Nil2)
    qed
    show ?thesis
    proof (cases "kindOf t")
      case KStruct
      let ?F = "\<lambda>(tg, f, fv). if skipField tg (snd (snd f)) fv then Inr []
                   else emitValue env (path @ [Name tg]) (pos @ [fst f]) a (\<not> exported (fst f))
                          (snd (snd f)) fv"
      let ?xs = "zip (tags t) (zip (fieldsOf t) (structFields v))"
      from "1.prems" np el nro None KStruct have s: "seqE (map ?F ?xs) = Inr ps"
        by (simp add: emitValue.simps)
      then obtain x where x: "x \<in> set ?xs" "p \<in> set (projr (?F x))" and ok: "\<exists>qs. ?F x = Inr qs"
        using "1.prems"(2) by (auto simp: seqE_Inr_iff)
      obtain tg f fv where xe: "x = (tg, f, fv)" by (cases x) auto
      show ?thesis
      proof (cases "skipField tg (snd (snd f)) fv")
        case True
        with x xe show ?thesis by simp
      next
        case False
        with ok xe obtain qs where qs: "emitValue env (path @ [Name tg]) (pos @ [fst f]) a
                                          (\<not> exported (fst f)) (snd (snd f)) fv = Inr qs"
          by auto
        with x xe False have "p \<in> set qs" by simp
        from IH(4)[OF KStruct x(1)[unfolded xe] refl refl False qs this]
        show ?thesis by (metis append_assoc)
      qed
    next
      case KMap
      let ?F = "\<lambda>k. case map_of (mapEntries v) k of None \<Rightarrow> Inr []
                 | Some mv \<Rightarrow> if kindOf (elemOf t) = KInterface \<and> mv = VNil then Inr []
                             else emitValue env (path @ [keyText env t k]) (pos @ [k]) False False
                                    (elemOf t) mv"
      let ?xs = "MapKeys env pos (map fst (mapEntries v))"
      from "1.prems" np el nro None KMap have s: "seqE (map ?F ?xs) = Inr ps"
        by (simp add: emitValue.simps)
      then obtain k where k: "k \<in> set ?xs" "p \<in> set (projr (?F k))" and ok: "\<exists>qs. ?F k = Inr qs"
        using "1.prems"(2) by (auto simp: seqE_Inr_iff)
      show ?thesis
      proof (cases "map_of (mapEntries v) k")
        case None
        with k show ?thesis by simp
      next
        case (Some mv)
        show ?thesis
        proof (cases "kindOf (elemOf t) = KInterface \<and> mv = VNil")
          case True
          with k Some show ?thesis by simp
        next
          case False
          with ok Some obtain qs where qs: "emitValue env (path @ [keyText env t k]) (pos @ [k])
                                              False False (elemOf t) mv = Inr qs"
            by auto
          with k Some False have "p \<in> set qs" by simp
          from IH(3)[OF KMap k(1) Some False qs this]
          show ?thesis by (metis append_assoc)
        qed
      qed
    next
      case KSlice
      let ?F = "\<lambda>(i, x). if kindOf (elemOf t) = KInterface \<and> x = VNil then Inr []
                   else emitValue env (path @ ['''']) (pos @ [FormatUint i]) True False (elemOf t) x"
      let ?xs = "enumerate 0 (sliceElems v)"
      from "1.prems" np el nro None KSlice have s: "seqE (map ?F ?xs) = Inr ps"
        by (simp add: emitValue.simps)
      then obtain ix where x: "ix \<in> set ?xs" "p \<in> set (projr (?F ix))" and ok: "\<exists>qs. ?F ix = Inr qs"
        using "1.prems"(2) by (auto simp: seqE_Inr_iff)
      obtain i x where xe: "ix = (i, x)" by (cases ix)
      show ?thesis
      proof (cases "kindOf (elemOf t) = KInterface \<and> x = VNil")
        case True
        with x xe show ?thesis by simp
      next
        case False
        with ok xe obtain qs where qs: "emitValue env (path @ ['''']) (pos @ [FormatUint i]) True False
                                          (elemOf t) x = Inr qs"
          by auto
        with x xe False have "p \<in> set qs" by simp
        from IH(1)[OF KSlice x(1)[unfolded xe] refl False qs this]
        show ?thesis by (metis append_assoc)
      qed
    next
      case KArray
      let ?F = "\<lambda>(i, x). if kindOf (elemOf t) = KInterface \<and> x = VNil then Inr []
                   else emitValue env (path @ ['''']) (pos @ [FormatUint i]) a False (elemOf t) x"
      let ?xs = "enumerate 0 (arrayElems v)"
      from "1.prems" np el nro None KArray have s: "seqE (map ?F ?xs) = Inr ps"
        by (simp add: emitValue.simps)
      then obtain ix where x: "ix \<in> set ?xs" "p \<in> set (projr (?F ix))" and ok: "\<exists>qs. ?F ix = Inr qs"
        using "1.prems"(2) by (auto simp: seqE_Inr_iff)
      obtain i x where xe: "ix = (i, x)" by (cases ix)
      show ?thesis
      proof (cases "kindOf (elemOf t) = KInterface \<and> x = VNil")
        case True
        with x xe show ?thesis by simp
      next
        case False
        with ok xe obtain qs where qs: "emitValue env (path @ ['''']) (pos @ [FormatUint i]) a False
                                          (elemOf t) x = Inr qs"
          by auto
        with x xe False have "p \<in> set qs" by simp
        from IH(2)[OF KArray x(1)[unfolded xe] refl False qs this]
        show ?thesis by (metis append_assoc)
      qed
    next
      case KInterface
      show ?thesis
      proof (cases v)
        case (VIface dt dv)
        with "1.prems" np el nro None KInterface have "emitValue env path pos False False dt dv = Inr ps"
          by (simp add: emitValue.simps)
        from IH(5)[OF KInterface VIface this "1.prems"(2)] show ?thesis .
      qed (use "1.prems" np el nro None KInterface in \<open>auto simp: emitValue.simps\<close>)
    qed (use "1.prems" np el nro None scalar in \<open>simp_all add: emitValue.simps\<close>)
  qed
qed

lemma asMarshaler_marshalers:
  "marshalers env2 = marshalers env1 \<Longrightarrow> asMarshaler env2 a t v = asMarshaler env1 a t v"
proof -
  assume m: "marshalers env2 = marshalers env1"
  have c: "marshalerOfConcrete env2 = marshalerOfConcrete env1"
    by (intro ext) (unfold marshalerOfConcrete_def m, rule refl)
  have mo: "marshalerOf env2 = marshalerOf env1"
    by (intro ext) (unfold marshalerOf_def c, rule refl)
  show ?thesis unfolding asMarshaler_def c mo by (rule refl)
qed

lemma emitValue_body:
  assumes "\<not> (kindOf t0 = KPointer \<and> v0 = VNil)" "elemM addr t0 v0 = (a, t, v)" "\<not> ro"
    "asMarshaler env a t v = None"
  shows "emitValue env path pos addr ro t0 v0 =
    (case kindOf t of
       KStruct \<Rightarrow>
         seqE (map (\<lambda>(tg, f, fv).
                      if skipField tg (snd (snd f)) fv then Inr []
                      else emitValue env (path @ [Name tg]) (pos @ [fst f]) a
                             (\<not> exported (fst f)) (snd (snd f)) fv)
                   (zip (tags t) (zip (fieldsOf t) (structFields v))))
     | KMap \<Rightarrow>
         seqE (map (\<lambda>k. case map_of (mapEntries v) k of
                           None \<Rightarrow> Inr []
                         | Some mv \<Rightarrow>
                             if kindOf (elemOf t) = KInterface \<and> mv = VNil then Inr []
                             else emitValue env (path @ [keyText env t k]) (pos @ [k])
                                    False False (elemOf t) mv)
                   (MapKeys env pos (map fst (mapEntries v))))
     | KSlice \<Rightarrow>
         seqE (map (\<lambda>(i, x).
                      if kindOf (elemOf t) = KInterface \<and> x = VNil then Inr []
                      else emitValue env (path @ ['''']) (pos @ [FormatUint i])
                             True False (elemOf t) x)
                   (enumerate 0 (sliceElems v)))
     | KArray \<Rightarrow>
         seqE (map (\<lambda>(i, x).
                      if kindOf (elemOf t) = KInterface \<and> x = VNil then Inr []
                      else emitValue env (path @ ['''']) (pos @ [FormatUint i])
                             a False (elemOf t) x)
                   (enumerate 0 (arrayElems v)))
     | KInterface \<Rightarrow>
         (case v of
            VIface dt dv \<Rightarrow> emitValue env path pos False False dt dv
          | _ \<Rightarrow> Inr [])
     | _ \<Rightarrow> emitScalar path t v)"
  using assms by (subst emitValue.simps) auto

lemma concat_all_Nil: "(\<forall>k\<in>set ks. h k = []) \<Longrightarrow> concat (map h ks) = []"
  by (induction ks) auto

lemma concat_perm_single:
  assumes "distinct ks1" "mset ks2 = mset ks1"
    and "\<forall>k\<in>set ks1. \<forall>k'\<in>set ks1. k \<noteq> k' \<longrightarrow> h k = [] \<or> h k' = []"
  shows "concat (map h ks1) = concat (map h ks2)"
proof -
  have d2: "distinct ks2" using assms(1,2) by (metis mset_eq_imp_distinct_iff)
  have s: "set ks2 = set ks1" using assms(2) by (metis mset_eq_setD)
  show ?thesis
  proof (cases "\<exists>k0\<in>set ks1. h k0 \<noteq> []")
    case True
    then obtain k0 where k0: "k0 \<in> set ks1" "h k0 \<noteq> []" by auto
    with assms(3) have rest: "\<forall>k\<in>set ks1. k \<noteq> k0 \<longrightarrow> h k = []" by metis
    have "concat (map h ks1) = h k0" by (rule concat_single[OF assms(1) k0(1) rest])
    moreover have "concat (map h ks2) = h k0"
      by (rule concat_single[OF d2]) (use k0 rest s in auto)
    ultimately show ?thesis by simp
  next
    case False
    then have "\<forall>k\<in>set ks1. h k = []" "\<forall>k\<in>set ks2. h k = []" using s by auto
    then show ?thesis
      using concat_all_Nil[of ks1 h] concat_all_Nil[of ks2 h] by presburger
  qed
qed

lemma onKey_concat: "onKey k (concat xss) = concat (map (onKey k) xss)"
  by (induction xss) auto

lemma onKey_empty_iff: "onKey k ps = [] \<longleftrightarrow> k \<notin> fst ` set ps"
  by (auto simp: onKey_def filter_empty_conv)

lemma seqE_pointwise:
  assumes "seqE (map F xs) = Inr ps"
    and "\<And>x qs. x \<in> set xs \<Longrightarrow> F x = Inr qs \<Longrightarrow> \<exists>qs'. G x = Inr qs' \<and> samePerKey qs qs'"
  shows "\<exists>ps'. seqE (map G xs) = Inr ps' \<and> samePerKey ps ps'"
  using assms
proof (induction xs arbitrary: ps)
  case Nil
  then show ?case by simp
next
  case (Cons x xs)
  from Cons.prems(1) obtain qs rs where q: "F x = Inr qs" and r: "seqE (map F xs) = Inr rs"
    and ps: "ps = qs @ rs"
    by (cases "F x"; cases "seqE (map F xs)") (auto simp: seqE_Inr)
  from Cons.prems(2)[OF _ q] obtain qs' where q': "G x = Inr qs'" "samePerKey qs qs'" by auto
  from Cons.IH[OF r] Cons.prems(2) obtain rs' where r': "seqE (map G xs) = Inr rs'" "samePerKey rs rs'"
    by auto
  show ?case
    using q' r' ps by (auto simp: seqE_Inr samePerKey_append)
qed

lemma plainKeys_elemM:
  "plainKeys t0 v0 \<Longrightarrow> elemM addr t0 v0 = (a, t, v) \<Longrightarrow> plainKeys t v"
  by (auto simp: elemM_def split: if_splits val.splits)

lemma plainKeys_mapEntries:
  assumes "plainKeys t v" "map_of (mapEntries v) k = Some mv"
  shows "kindOf (keyOf t) = KString \<and> distinct (map fst (mapEntries v)) \<and> plainKey k \<and>
         plainKeys (elemOf t) mv"
proof -
  from assms(2) obtain es where v: "v = VMap es" by (cases v) (auto simp: mapEntries_def)
  with assms(2) have "(k, mv) \<in> set es" by (auto simp: mapEntries_def dest: map_of_SomeD)
  with assms(1) v show ?thesis by (auto simp: mapEntries_def list_all_iff)
qed

lemma plainKeys_distinct: "plainKeys t v \<Longrightarrow> distinct (map fst (mapEntries v))"
  by (cases v) (auto simp: mapEntries_def)

lemma plainKeys_sliceElems:
  "plainKeys t v \<Longrightarrow> (i, x) \<in> set (enumerate n (sliceElems v)) \<Longrightarrow> plainKeys (elemOf t) x"
  by (cases v) (auto simp: sliceElems_def list_all_iff in_set_enumerate_eq)

lemma plainKeys_arrayElems:
  "plainKeys t v \<Longrightarrow> (i, x) \<in> set (enumerate n (arrayElems v)) \<Longrightarrow> plainKeys (elemOf t) x"
  by (cases v) (auto simp: arrayElems_def list_all_iff in_set_enumerate_eq)

lemma plainKeys_structFields:
  assumes "plainKeys t v" "(tg, f, x) \<in> set (zip ts (zip (fieldsOf t) (structFields v)))"
  shows "plainKeys (snd (snd f)) x"
proof -
  from assms(2) have fx: "(f, x) \<in> set (zip (fieldsOf t) (structFields v))"
    by (rule set_zip_rightD)
  then obtain xs where v: "v = VStruct xs" by (cases v) (auto simp: structFields_def)
  with fx assms(1) show ?thesis by (auto simp: structFields_def list_all_iff)
qed

lemma keyText_string: "kindOf (keyOf t) = KString \<Longrightarrow> keyText env t k = k"
  by (simp add: keyText_def)

lemma emit_order:
  assumes "marshalers env2 = marshalers env1"
    and "\<forall>pos ks. mset (MapKeys env1 pos ks) = mset ks"
    and "\<forall>pos ks. mset (MapKeys env2 pos ks) = mset ks"
    and "emitValue env1 path pos addr ro t0 v0 = Inr ps"
    and "plainKeys t0 v0"
  shows "\<exists>ps'. emitValue env2 path pos addr ro t0 v0 = Inr ps' \<and> samePerKey ps ps'"
  using assms
proof (induction env1 path pos addr ro t0 v0 arbitrary: ps rule: emitValue.induct)
  case (1 env path pos addr ro t0 v0)
  note m = "1.prems"(1) and f1 = "1.prems"(2) and f2 = "1.prems"(3)
    and e = "1.prems"(4) and pk0 = "1.prems"(5)
  show ?case
  proof (cases "kindOf t0 = KPointer \<and> v0 = VNil")
    case True
    with e show ?thesis by (auto simp: emitValue.simps)
  next
    case np: False
    obtain a t v where el: "elemM addr t0 v0 = (a, t, v)" by (cases "elemM addr t0 v0")
    from e np el have nro: "\<not> ro"
      by (auto simp: emitValue.simps split: if_splits)
    have pk: "plainKeys t v" by (rule plainKeys_elemM[OF pk0 el])
    have am: "asMarshaler env2 a t v = asMarshaler env a t v"
      by (rule asMarshaler_marshalers[OF m])
    show ?thesis
    proof (cases "asMarshaler env a t v")
      case (Some mm)
      with e np el nro am show ?thesis
        by (auto simp: emitValue.simps)
    next
      case None
      note IH = "1.IH"[OF np el[symmetric] refl nro None]
      from None am have None2: "asMarshaler env2 a t v = None" by simp
      note b1 = emitValue_body[OF np el nro None, of path pos]
      note b2 = emitValue_body[OF np el nro None2, of path pos]
      show ?thesis
      proof (cases "kindOf t")
        case KStruct
        let ?F = "\<lambda>env (tg, f, fv). if skipField tg (snd (snd f)) fv then Inr []
                   else emitValue env (path @ [Name tg]) (pos @ [fst f]) a (\<not> exported (fst f))
                          (snd (snd f)) fv"
        let ?xs = "zip (tags t) (zip (fieldsOf t) (structFields v))"
        from e b1 KStruct have s: "seqE (map (?F env) ?xs) = Inr ps"
          by simp
        have "\<exists>ps'. seqE (map (?F env2) ?xs) = Inr ps' \<and> samePerKey ps ps'"
        proof (rule seqE_pointwise[OF s])
          fix x qs assume x: "x \<in> set ?xs" and q: "?F env x = Inr qs"
          obtain tg f fv where xe: "x = (tg, f, fv)" by (cases x) auto
          show "\<exists>qs'. ?F env2 x = Inr qs' \<and> samePerKey qs qs'"
          proof (cases "skipField tg (snd (snd f)) fv")
            case True
            with q xe show ?thesis by auto
          next
            case False
            with q xe have q': "emitValue env (path @ [Name tg]) (pos @ [fst f]) a
                                  (\<not> exported (fst f)) (snd (snd f)) fv = Inr qs"
              by simp
            have "plainKeys (snd (snd f)) fv" by (rule plainKeys_structFields[OF pk x[unfolded xe]])
            from IH(4)[OF KStruct x[unfolded xe] refl refl False m f1 f2 q' this] False xe
            show ?thesis by auto
          qed
        qed
        with b2 KStruct show ?thesis
          by simp
      next
        case KMap
        let ?es = "mapEntries v"
        let ?F = "\<lambda>env k. case map_of ?es k of None \<Rightarrow> Inr []
                 | Some mv \<Rightarrow> if kindOf (elemOf t) = KInterface \<and> mv = VNil then Inr []
                             else emitValue env (path @ [keyText env t k]) (pos @ [k]) False False
                                    (elemOf t) mv"
        let ?ks1 = "MapKeys env pos (map fst ?es)"
        let ?ks2 = "MapKeys env2 pos (map fst ?es)"
        from e b1 KMap have s: "seqE (map (?F env) ?ks1) = Inr ps"
          by simp
        have d1: "distinct ?ks1"
          using f1 plainKeys_distinct[OF pk] by (metis mset_eq_imp_distinct_iff)
        have ms: "mset ?ks2 = mset ?ks1" using f1 f2 by simp
        then have ss: "set ?ks2 = set ?ks1" by (metis mset_eq_setD)
        from s have ok1: "\<forall>k\<in>set ?ks1. \<exists>qs. ?F env k = Inr qs"
          and ps: "ps = concat (map (\<lambda>k. projr (?F env k)) ?ks1)"
          by (simp_all add: seqE_Inr_iff)
        have rel: "\<exists>qs'. ?F env2 k = Inr qs' \<and> samePerKey (projr (?F env k)) qs'"
          if k: "k \<in> set ?ks1" for k
        proof (cases "map_of ?es k")
          case None
          then show ?thesis by simp
        next
          case (Some mv)
          show ?thesis
          proof (cases "kindOf (elemOf t) = KInterface \<and> mv = VNil")
            case True
            with Some show ?thesis by simp
          next
            case False
            note pm = plainKeys_mapEntries[OF pk Some]
            then have kt: "keyText env t k = k" "keyText env2 t k = k"
              by (simp_all add: keyText_string)
            from ok1 k Some False kt obtain qs where
              q: "emitValue env (path @ [keyText env t k]) (pos @ [k]) False False (elemOf t) mv = Inr qs"
              by auto
            have "plainKeys (elemOf t) mv" using pm by simp
            from IH(3)[OF KMap k Some False m f1 f2 q this] q Some False kt
            show ?thesis by auto
          qed
        qed
        then have ok2: "\<forall>k\<in>set ?ks2. \<exists>qs. ?F env2 k = Inr qs" using ss by blast
        then have s2: "seqE (map (?F env2) ?ks2) = Inr (concat (map (\<lambda>k. projr (?F env2 k)) ?ks2))"
          by (simp add: seqE_Inr_iff)
        have keys: "\<exists>q. fst p = render ((path @ [k]) @ q) \<and> plainKey k"
          if k: "k \<in> set ?ks1" and p: "p \<in> set (projr (?F env k))" for k p
        proof (cases "map_of ?es k")
          case None
          with p show ?thesis by simp
        next
          case (Some mv)
          show ?thesis
          proof (cases "kindOf (elemOf t) = KInterface \<and> mv = VNil")
            case True
            with Some p show ?thesis by simp
          next
            case False
            note pm = plainKeys_mapEntries[OF pk Some]
            then have kt: "keyText env t k = k" by (simp add: keyText_string)
            from ok1 k Some False obtain qs where
              q: "emitValue env (path @ [keyText env t k]) (pos @ [k]) False False (elemOf t) mv = Inr qs"
              by auto
            with p Some False have "p \<in> set qs" by simp
            from emit_keys[OF q this] pm kt
            show ?thesis by auto
          qed
        qed
        have "samePerKey ps (concat (map (\<lambda>k. projr (?F env2 k)) ?ks2))"
          unfolding samePerKey_def
        proof
          fix x
          let ?h = "\<lambda>k. onKey x (projr (?F env k))"
          have one: "\<forall>k\<in>set ?ks1. \<forall>k'\<in>set ?ks1. k \<noteq> k' \<longrightarrow> ?h k = [] \<or> ?h k' = []"
          proof (intro ballI impI)
            fix k k' assume k: "k \<in> set ?ks1" and k': "k' \<in> set ?ks1" and ne: "k \<noteq> k'"
            show "?h k = [] \<or> ?h k' = []"
            proof (rule ccontr)
              assume "\<not> (?h k = [] \<or> ?h k' = [])"
              then obtain p p' where p: "p \<in> set (projr (?F env k))" "fst p = x"
                and p': "p' \<in> set (projr (?F env k'))" "fst p' = x"
                by (auto simp: onKey_empty_iff)
              from keys[OF k p(1)] p(2) obtain q where
                q: "x = render (path @ k # q)" "plainKey k" by auto
              from keys[OF k' p'(1)] p'(2) obtain q' where
                q': "x = render (path @ k' # q')" "plainKey k'" by auto
              from q(1) q'(1) have "render (path @ k # q) = render (path @ k' # q')"
                by (rule subst)
              from render_step_inj[OF q(2) q'(2) this] ne show False by simp
            qed
          qed
          have "onKey x ps = concat (map ?h ?ks1)"
            by (simp add: ps onKey_concat comp_def)
          also have "\<dots> = concat (map ?h ?ks2)"
            by (rule concat_perm_single[OF d1 ms one])
          also have "\<dots> = concat (map (\<lambda>k. onKey x (projr (?F env2 k))) ?ks2)"
          proof -
            have "map ?h ?ks2 = map (\<lambda>k. onKey x (projr (?F env2 k))) ?ks2"
            proof (rule map_cong[OF refl])
              fix k assume "k \<in> set ?ks2"
              then have "k \<in> set ?ks1" using ss by simp
              from rel[OF this] show "?h k = onKey x (projr (?F env2 k))"
                by (auto simp: samePerKey_def)
            qed
            then show ?thesis by (rule arg_cong)
          qed
          finally show "onKey x ps = onKey x (concat (map (\<lambda>k. projr (?F env2 k)) ?ks2))"
            by (simp add: onKey_concat comp_def)
        qed
        with s2 b2 KMap show ?thesis
          by simp
      next
        case KSlice
        let ?F = "\<lambda>env (i, x). if kindOf (elemOf t) = KInterface \<and> x = VNil then Inr []
                   else emitValue env (path @ ['''']) (pos @ [FormatUint i]) True False (elemOf t) x"
        let ?xs = "enumerate 0 (sliceElems v)"
        from e b1 KSlice have s: "seqE (map (?F env) ?xs) = Inr ps"
          by simp
        have "\<exists>ps'. seqE (map (?F env2) ?xs) = Inr ps' \<and> samePerKey ps ps'"
        proof (rule seqE_pointwise[OF s])
          fix ix qs assume x: "ix \<in> set ?xs" and q: "?F env ix = Inr qs"
          obtain i x where xe: "ix = (i, x)" by (cases ix)
          show "\<exists>qs'. ?F env2 ix = Inr qs' \<and> samePerKey qs qs'"
          proof (cases "kindOf (elemOf t) = KInterface \<and> x = VNil")
            case True
            with q xe show ?thesis by auto
          next
            case False
            with q xe have q': "emitValue env (path @ ['''']) (pos @ [FormatUint i]) True False
                                  (elemOf t) x = Inr qs"
              by simp
            have "plainKeys (elemOf t) x" by (rule plainKeys_sliceElems[OF pk x[unfolded xe]])
            from IH(1)[OF KSlice x[unfolded xe] refl False m f1 f2 q' this] False xe
            show ?thesis by auto
          qed
        qed
        with b2 KSlice show ?thesis
          by simp
      next
        case KArray
        let ?F = "\<lambda>env (i, x). if kindOf (elemOf t) = KInterface \<and> x = VNil then Inr []
                   else emitValue env (path @ ['''']) (pos @ [FormatUint i]) a False (elemOf t) x"
        let ?xs = "enumerate 0 (arrayElems v)"
        from e b1 KArray have s: "seqE (map (?F env) ?xs) = Inr ps"
          by simp
        have "\<exists>ps'. seqE (map (?F env2) ?xs) = Inr ps' \<and> samePerKey ps ps'"
        proof (rule seqE_pointwise[OF s])
          fix ix qs assume x: "ix \<in> set ?xs" and q: "?F env ix = Inr qs"
          obtain i x where xe: "ix = (i, x)" by (cases ix)
          show "\<exists>qs'. ?F env2 ix = Inr qs' \<and> samePerKey qs qs'"
          proof (cases "kindOf (elemOf t) = KInterface \<and> x = VNil")
            case True
            with q xe show ?thesis by auto
          next
            case False
            with q xe have q': "emitValue env (path @ ['''']) (pos @ [FormatUint i]) a False
                                  (elemOf t) x = Inr qs"
              by simp
            have "plainKeys (elemOf t) x" by (rule plainKeys_arrayElems[OF pk x[unfolded xe]])
            from IH(2)[OF KArray x[unfolded xe] refl False m f1 f2 q' this] False xe
            show ?thesis by auto
          qed
        qed
        with b2 KArray show ?thesis
          by simp
      next
        case KInterface
        show ?thesis
        proof (cases v)
          case (VIface dt dv)
          with e b1 KInterface have q: "emitValue env path pos False False dt dv = Inr ps"
            by simp
          have "plainKeys dt dv" using pk VIface by simp
          from IH(5)[OF KInterface VIface m f1 f2 q this] b2 KInterface VIface
          show ?thesis by simp
        qed (use e b1 b2 KInterface in auto)
      qed (use e b1 b2 in auto)
    qed
  qed
qed

lemma in_enumerate:
  assumes "x \<in> set xs"
  shows "\<exists>i. (i, x) \<in> set (enumerate n xs)"
proof -
  from assms obtain j where j: "j < length xs" "xs ! j = x" by (auto simp: in_set_conv_nth)
  then have "(n + j, x) \<in> set (enumerate n xs)" by (simp add: in_set_enumerate_eq)
  then show ?thesis ..
qed

lemma Marshal_emitTop:
  "Marshal env v =
     (case emitTop env v of
        Inl e \<Rightarrow> Inl e
      | Inr ps \<Rightarrow> Inr (joinAmp (map encodePair (sort_key fst ps))))"
proof -
  have E: "Encode [] = []" by (simp add: Encode_def)
  have L: "\<And>r. (case lift [] r of Inl e \<Rightarrow> Inl e | Inr values \<Rightarrow> Inr (Encode values)) =
     (case r of Inl e \<Rightarrow> Inl e | Inr ps \<Rightarrow> Inr (joinAmp (map encodePair (sort_key fst ps))))"
    by (simp add: lift_def Encode_addAll split: sum.splits)
  show ?thesis
    by (simp add: Marshal_def emitTop_def marshal_emit(1) L split: option.splits prod.splits)
qed

lemma fair_set: "\<forall>pos ks. mset (MapKeys env pos ks) = mset ks \<Longrightarrow> set (MapKeys env pos ks) = set ks"
  by (metis mset_eq_setD)

lemma reaches_fails:
  assumes "\<forall>pos ks. mset (MapKeys env pos ks) = mset ks"
    and "reachesUnsupported env addr t0 v0"
  shows "\<exists>e. emitValue env path pos addr ro t0 v0 = Inl e"
  using assms
proof (induction env path pos addr ro t0 v0 rule: emitValue.induct)
  case (1 env path pos addr ro t0 v0)
  note fair = "1.prems"(1) and r = "1.prems"(2)
  from r have np: "\<not> (kindOf t0 = KPointer \<and> v0 = VNil)"
    by (auto simp: reachesUnsupported.simps)
  obtain a t v where el: "elemM addr t0 v0 = (a, t, v)" by (cases "elemM addr t0 v0")
  from r np el have None: "asMarshaler env a t v = None"
    by (auto simp: reachesUnsupported.simps split: option.splits)
  show ?case
  proof (cases ro)
    case True
    with np el show ?thesis by (auto simp: emitValue.simps)
  next
    case nro: False
    note IH = "1.IH"[OF np el[symmetric] refl nro None]
    note b = emitValue_body[OF np el nro None, of path pos]
    from r np el None have r': "(case kindOf t of
         KStruct \<Rightarrow>
           list_ex (\<lambda>(tg, f, fv). \<not> skipField tg (snd (snd f)) fv \<and>
                       reachesUnsupported env a (snd (snd f)) fv)
                   (zip (tags t) (zip (fieldsOf t) (structFields v)))
       | KMap \<Rightarrow>
           list_ex (\<lambda>k. case map_of (mapEntries v) k of
                           None \<Rightarrow> False
                         | Some mv \<Rightarrow>
                             \<not> (kindOf (elemOf t) = KInterface \<and> mv = VNil) \<and>
                             reachesUnsupported env False (elemOf t) mv)
                   (map fst (mapEntries v))
       | KSlice \<Rightarrow>
           list_ex (\<lambda>x. \<not> (kindOf (elemOf t) = KInterface \<and> x = VNil) \<and>
                         reachesUnsupported env True (elemOf t) x)
                   (sliceElems v)
       | KArray \<Rightarrow>
           list_ex (\<lambda>x. \<not> (kindOf (elemOf t) = KInterface \<and> x = VNil) \<and>
                         reachesUnsupported env a (elemOf t) x)
                   (arrayElems v)
       | KInterface \<Rightarrow>
           (case v of
              VIface dt dv \<Rightarrow> reachesUnsupported env False dt dv
            | _ \<Rightarrow> False)
       | k \<Rightarrow> unsupportedKind k)"
      by (subst (asm) reachesUnsupported.simps) auto
    show ?thesis
    proof (cases "kindOf t")
      case KStruct
      with r' obtain tg f fv where x: "(tg, f, fv) \<in> set (zip (tags t) (zip (fieldsOf t) (structFields v)))"
        and ns: "\<not> skipField tg (snd (snd f)) fv"
        and rr: "reachesUnsupported env a (snd (snd f)) fv"
        by (auto simp: list_ex_iff)
      from IH(4)[OF KStruct x refl refl ns fair rr] obtain e where
        e: "emitValue env (path @ [Name tg]) (pos @ [fst f]) a (\<not> exported (fst f))
              (snd (snd f)) fv = Inl e" by auto
      let ?F = "\<lambda>(tg, f, fv).
                      if skipField tg (snd (snd f)) fv then Inr []
                      else emitValue env (path @ [Name tg]) (pos @ [fst f]) a (\<not> exported (fst f))
                             (snd (snd f)) fv"
      from e ns have "?F (tg, f, fv) = Inl e" by simp
      from seqE_Inl_if[where F = ?F, OF x this] b KStruct show ?thesis by simp
    next
      case KMap
      with r' obtain k mv where k: "k \<in> set (map fst (mapEntries v))"
        and mv: "map_of (mapEntries v) k = Some mv"
        and ns: "\<not> (kindOf (elemOf t) = KInterface \<and> mv = VNil)"
        and rr: "reachesUnsupported env False (elemOf t) mv"
        by (auto simp: list_ex_iff split: option.splits)
      from k fair have k': "k \<in> set (MapKeys env pos (map fst (mapEntries v)))"
        using fair_set by blast
      from IH(3)[OF KMap k' mv ns fair rr] obtain e where
        e: "emitValue env (path @ [keyText env t k]) (pos @ [k]) False False (elemOf t) mv = Inl e"
        by auto
      let ?F = "\<lambda>k. case map_of (mapEntries v) k of
                           None \<Rightarrow> Inr []
                         | Some mv \<Rightarrow>
                             if kindOf (elemOf t) = KInterface \<and> mv = VNil then Inr []
                             else emitValue env (path @ [keyText env t k]) (pos @ [k]) False False
                                    (elemOf t) mv"
      from e ns mv have "?F k = Inl e" by auto
      from seqE_Inl_if[where F = ?F, OF k' this] b KMap show ?thesis by simp
    next
      case KSlice
      with r' obtain x where x0: "x \<in> set (sliceElems v)"
        and ns: "\<not> (kindOf (elemOf t) = KInterface \<and> x = VNil)"
        and rr: "reachesUnsupported env True (elemOf t) x"
        by (auto simp: list_ex_iff)
      from in_enumerate[OF x0, of 0] obtain i where x: "(i, x) \<in> set (enumerate 0 (sliceElems v))"
        by auto
      from IH(1)[OF KSlice x refl ns fair rr] obtain e where
        e: "emitValue env (path @ ['''']) (pos @ [FormatUint i]) True False (elemOf t) x = Inl e"
        by auto
      let ?F = "\<lambda>(i, x). if kindOf (elemOf t) = KInterface \<and> x = VNil then Inr []
                         else emitValue env (path @ ['''']) (pos @ [FormatUint i]) True False
                                (elemOf t) x"
      from e ns have "?F (i, x) = Inl e" by auto
      from seqE_Inl_if[where F = ?F, OF x this] b KSlice show ?thesis by simp
    next
      case KArray
      with r' obtain x where x0: "x \<in> set (arrayElems v)"
        and ns: "\<not> (kindOf (elemOf t) = KInterface \<and> x = VNil)"
        and rr: "reachesUnsupported env a (elemOf t) x"
        by (auto simp: list_ex_iff)
      from in_enumerate[OF x0, of 0] obtain i where x: "(i, x) \<in> set (enumerate 0 (arrayElems v))"
        by auto
      from IH(2)[OF KArray x refl ns fair rr] obtain e where
        e: "emitValue env (path @ ['''']) (pos @ [FormatUint i]) a False (elemOf t) x = Inl e"
        by auto
      let ?F = "\<lambda>(i, x). if kindOf (elemOf t) = KInterface \<and> x = VNil then Inr []
                         else emitValue env (path @ ['''']) (pos @ [FormatUint i]) a False
                                (elemOf t) x"
      from e ns have "?F (i, x) = Inl e" by auto
      from seqE_Inl_if[where F = ?F, OF x this] b KArray show ?thesis by simp
    next
      case KInterface
      with r' obtain dt dv where v: "v = VIface dt dv" and rr: "reachesUnsupported env False dt dv"
        by (auto split: val.splits)
      from IH(5)[OF KInterface v fair rr] b KInterface v show ?thesis by simp
    next
      case KChan
      with b show ?thesis
        by (cases path) (auto simp: emitScalar_def getScalar_def renderPath_def)
    next
      case KFunc
      with b show ?thesis
        by (cases path) (auto simp: emitScalar_def getScalar_def renderPath_def)
    next
      case KComplex
      with b show ?thesis
        by (cases path) (auto simp: emitScalar_def getScalar_def renderPath_def)
    qed (use r' in \<open>auto simp: unsupportedKind_def\<close>)
  qed
qed

lemma unsupported_in_dynamic_map:
  assumes "\<forall>pos ks. mset (MapKeys env pos ks) = mset ks"
    "kindOf t = KChan \<or> kindOf t = KFunc \<or> kindOf t = KComplex"
    "asMarshaler env False t x = None"
  shows "emitValue env [] [] False False dynamicMap (VMap [(k, VIface t x)]) =
           Inl (Panic ''form: unsupported type'')"
proof -
  have mk: "MapKeys env [] [k] = [k]"
    using assms(1) by (metis mset_single_iff_right mset.simps(1) mset.simps(2) mset_zero_iff)
  have am: "asMarshaler env False dynamicMap (VMap [(k, VIface t x)]) = None"
    by (simp add: asMarshaler_def marshalerOf_def marshalerOfConcrete_def dynamicMap_def)
  have ai: "asMarshaler env False TInterface (VIface t x) = None"
    using assms(3) assms(2)
    by (auto simp: asMarshaler_def marshalerOf_def)
  have leaf: "emitValue env [k] [k] False False t x = Inl (Panic ''form: unsupported type'')"
    using assms(2,3)
    by (subst emitValue.simps) (auto simp: elemM_def emitScalar_def getScalar_def renderPath_def)
  have iface: "emitValue env [k] [k] False False TInterface (VIface t x) =
                 Inl (Panic ''form: unsupported type'')"
    using ai leaf by (subst emitValue.simps) (simp add: elemM_def)
  show ?thesis
    using am iface mk
    by (subst emitValue.simps)
       (simp add: elemM_def dynamicMap_def mapEntries_def seqE.simps keyText_def)
qed

subsection \<open>Unsupported kinds\<close>

lemma fairOrder_rev: "fairOrder (plainEnv\<lparr>MapKeys := \<lambda>pos. rev\<rparr>)"
  by (simp add: fairOrder_def plainEnv_def)

lemma getScalar_unsupported:
  "unsupportedKind (kindOf t) \<Longrightarrow> getScalar t x = Inl (Panic ''form: unsupported type'')"
  by (auto simp: unsupportedKind_def getScalar_def)

lemma Marshal_unsupported_in_dynamic_map:
  assumes "fairOrder env" "unsupportedKind (kindOf t)" "asMarshaler env False t x = None"
  shows "Marshal env (Some (dynamicMap, VMap [(k, VIface t x)])) =
           Inl (Panic ''form: unsupported type'')"
proof -
  from assms(1) have f: "\<forall>pos ks. mset (MapKeys env pos ks) = mset ks"
    by (simp add: fairOrder_def)
  from assms(2) have k: "kindOf t = KChan \<or> kindOf t = KFunc \<or> kindOf t = KComplex"
    by (simp add: unsupportedKind_def)
  have "emitTop env (Some (dynamicMap, VMap [(k, VIface t x)])) =
          Inl (Panic ''form: unsupported type'')"
    using unsupported_in_dynamic_map[OF f k assms(3)]
    by (simp add: emitTop_def elemM_def dynamicMap_def)
  then show ?thesis by (simp add: Marshal_emitTop)
qed

lemma Marshal_reaches_fails:
  assumes "fairOrder env" "reachesUnsupported env False t v"
  shows "\<exists>e. Marshal env (Some (t, v)) = Inl e"
proof -
  from assms(1) have f: "\<forall>pos ks. mset (MapKeys env pos ks) = mset ks"
    by (simp add: fairOrder_def)
  from assms(2) have np: "\<not> (kindOf t = KPointer \<and> v = VNil)"
    by (auto simp: reachesUnsupported.simps)
  obtain a t' rv where el: "elemM False t v = (a, t', rv)" by (cases "elemM False t v")
  show ?thesis
  proof (cases "kindOf t' = KPointer")
    case True
    with np el show ?thesis by (auto simp: Marshal_emitTop emitTop_def)
  next
    case False
    have same: "emitValue env [] [] a False t' rv = emitValue env [] [] False False t v"
    proof (cases "kindOf t = KPointer")
      case True
      with el have a: "a = True" "t' = elemOf t" "rv = (case v of VPtr x \<Rightarrow> x | _ \<Rightarrow> VNil)"
        by (auto simp: elemM_def)
      have e1: "elemM False t v = (True, elemOf t, rv)" using el a by simp
      have e2: "elemM True (elemOf t) rv = (True, elemOf t, rv)"
        using False a by (simp add: elemM_def)
      have np2: "\<not> (kindOf (elemOf t) = KPointer \<and> rv = VNil)" using False a by simp
      show ?thesis
        unfolding a(1,2)
        by (subst emitValue.simps, subst (2) emitValue.simps) (use np np2 e1 e2 in auto)
    next
      case False
      with el show ?thesis by (auto simp: elemM_def)
    qed
    from reaches_fails[OF f assms(2), of "[]" "[]" False] obtain e where
      "emitValue env [] [] False False t v = Inl e" by auto
    with same np el show ?thesis
      by (auto simp: Marshal_emitTop emitTop_def)
  qed
qed

text \<open>
  Claim C5.  A value of channel, function or complex kind that the traversal reaches stops
  the encoding, and nothing is produced.  The failure is not a returned error, though: at such
  a value \<open>getScalar\<close> panics, \<open>Marshal\<close> does not recover, and the panic reaches the caller.
  So a dynamic map holding one such element makes \<open>Marshal\<close> panic with
  \<open>form: unsupported type\<close>, whatever the key and the order of the runtime; and whenever the
  traversal reaches such a value (\<open>reachesUnsupported\<close>: through pointers, interfaces, struct
  fields that are not skipped, map and sequence elements that are not nil interfaces, and not
  below a value with a \<open>Marshaler\<close> hook), \<open>Marshal\<close> gives no output.
\<close>

theorem unsupported_kind_panics:
  "(unsupportedKind (kindOf t) \<longrightarrow> getScalar t x = Inl (Panic ''form: unsupported type'')) \<and>
   (fairOrder env \<and> unsupportedKind (kindOf t) \<and> asMarshaler env False t x = None \<longrightarrow>
      Marshal env (Some (dynamicMap, VMap [(k, VIface t x)])) =
        Inl (Panic ''form: unsupported type'')) \<and>
   (fairOrder env \<and> reachesUnsupported env False t' v \<longrightarrow>
      (\<exists>e. Marshal env (Some (t', v)) = Inl e))"
  using getScalar_unsupported Marshal_unsupported_in_dynamic_map Marshal_reaches_fails
  by blast

lemma reaches_example:
  "reachesUnsupported plainEnv False
     (TStruct [(''N'', ''n'', TInt 64), (''C'', ''c'', TSlice TChan)])
     (VStruct [VInt 1, VSlice [VChan]])"
  by code_simp

lemma asMarshaler_chan: "asMarshaler plainEnv False TChan VChan = None"
  by code_simp

theorem unsupported_kind_panics_witness:
  "getScalar TChan VChan = Inl (Panic ''form: unsupported type'') \<and>
   Marshal plainEnv (Some (dynamicMap, VMap [(''c'', VIface TChan VChan)])) =
     Inl (Panic ''form: unsupported type'') \<and>
   (\<exists>e. Marshal plainEnv
           (Some (TStruct [(''N'', ''n'', TInt 64), (''C'', ''c'', TSlice TChan)],
                  VStruct [VInt 1, VSlice [VChan]])) = Inl e)"
  using unsupported_kind_panics[of TChan VChan plainEnv "''c''"
      "TStruct [(''N'', ''n'', TInt 64), (''C'', ''c'', TSlice TChan)]"
      "VStruct [VInt 1, VSlice [VChan]]"]
  by (simp add: fairOrder_plainEnv reaches_example asMarshaler_chan unsupportedKind_def)

text \<open>A channel in a field that the tag excludes is never visited, and the rest is encoded.\<close>

lemma ignored_channel_field_is_encoded:
  "Marshal plainEnv
     (Some (TStruct [(''C'', ''-'', TChan), (''N'', ''n'', TInt 64)], VStruct [VChan, VInt 1])) =
   Inr ''n=1''"
  by code_simp

subsection \<open>Order of the output\<close>

lemma sort_key_samePerKey: "samePerKey (sort_key fst ps) ps"
  unfolding samePerKey_def onKey_def
proof
  fix k
  show "filter (\<lambda>p. fst p = k) (sort_key fst ps) = filter (\<lambda>p. fst p = k) ps"
    using filter_sort[of "\<lambda>p. fst p = k" fst ps] sort_key_stable[of fst k ps]
    by (metis (mono_tags, lifting) filter_cong)
qed

lemma Marshal_sorted:
  assumes "Marshal env v = Inr s"
  shows "\<exists>ps qs. emitTop env v = Inr ps \<and> s = joinAmp (map encodePair qs) \<and>
              sorted (map fst qs) \<and> mset qs = mset ps \<and> samePerKey qs ps"
proof -
  from assms obtain ps where ps: "emitTop env v = Inr ps"
    and s: "s = joinAmp (map encodePair (sort_key fst ps))"
    by (cases "emitTop env v") (auto simp: Marshal_emitTop)
  have "sorted (map fst (sort_key fst ps))" by simp
  moreover have "mset (sort_key fst ps) = mset ps" by simp
  ultimately show ?thesis using ps s sort_key_samePerKey by blast
qed

lemma emitTop_order:
  assumes "fairOrder env1" "fairOrder env2" "marshalers env2 = marshalers env1" "plainKeys t x"
    and "emitTop env1 (Some (t, x)) = Inr ps"
  shows "\<exists>ps'. emitTop env2 (Some (t, x)) = Inr ps' \<and> samePerKey ps ps'"
proof (cases "kindOf t = KPointer \<and> x = VNil")
  case True
  with assms(5) show ?thesis by (auto simp: emitTop_def)
next
  case False
  obtain a t' rv where el: "elemM False t x = (a, t', rv)" by (cases "elemM False t x")
  have pk: "plainKeys t' rv" by (rule plainKeys_elemM[OF assms(4) el])
  from assms(1,2) have f: "\<forall>pos ks. mset (MapKeys env1 pos ks) = mset ks"
    "\<forall>pos ks. mset (MapKeys env2 pos ks) = mset ks"
    by (simp_all add: fairOrder_def)
  from assms(5) False el have ok: "\<not> (kindOf t' \<noteq> KStruct \<and> kindOf t' \<noteq> KMap)"
    "\<not> (kindOf t' = KMap \<and> kindOf (keyOf t') \<noteq> KString)"
    and e: "emitValue env1 [] [] a False t' rv = Inr ps"
    by (auto simp: emitTop_def split: if_splits)
  from emit_order[OF assms(3) f e pk] False el ok show ?thesis
    by (auto simp: emitTop_def)
qed

lemma Marshal_order:
  assumes "fairOrder env1" "fairOrder env2" "marshalers env2 = marshalers env1" "plainKeys t x"
    and "Marshal env1 (Some (t, x)) = Inr s"
  shows "Marshal env2 (Some (t, x)) = Inr s"
proof -
  from assms(5) obtain ps where ps: "emitTop env1 (Some (t, x)) = Inr ps"
    and s: "s = joinAmp (map encodePair (sort_key fst ps))"
    by (cases "emitTop env1 (Some (t, x))") (auto simp: Marshal_emitTop)
  from emitTop_order[OF assms(1-4) ps] obtain ps' where
    ps': "emitTop env2 (Some (t, x)) = Inr ps'" "samePerKey ps ps'" by auto
  from samePerKey_sort[OF ps'(2)] ps'(1) s show ?thesis
    by (simp add: Marshal_emitTop)
qed

text \<open>
  Claim C7 (as amended).  When \<open>Marshal\<close> succeeds, its output is built from the emitted
  (key, value) pairs put in the order of their keys, the pairs of one key in the order of the
  traversal: each pair escaped, the pairs joined by \<open>&\<close>.  The output does not depend on the
  order in which the runtime visits the maps, provided that every map of the value has a key
  type of string kind and no key that contains a bracket (\<open>plainKeys\<close>): for two runtimes
  with the same \<open>Marshaler\<close> methods, whatever order each chooses at every map, if one gives
  an output the other gives the same.
\<close>

theorem encode_sorted_and_independent_of_map_order:
  "(Marshal env v = Inr s \<longrightarrow>
      (\<exists>ps qs. emitTop env v = Inr ps \<and> s = joinAmp (map encodePair qs) \<and>
               sorted (map fst qs) \<and> mset qs = mset ps \<and> samePerKey qs ps)) \<and>
   (fairOrder env1 \<and> fairOrder env2 \<and> marshalers env2 = marshalers env1 \<and> plainKeys t x \<and>
    Marshal env1 (Some (t, x)) = Inr s' \<longrightarrow>
      Marshal env2 (Some (t, x)) = Inr s')"
  using Marshal_sorted Marshal_order by blast

lemma Marshal_ab:
  "Marshal plainEnv (Some (dynamicMap, VMap [(''b'', dyn ''2''), (''a'', dyn ''1'')])) = Inr ''a=1&b=2''"
  by code_simp

lemma plainKeys_ab: "plainKeys dynamicMap (VMap [(''b'', dyn ''2''), (''a'', dyn ''1'')])"
  by (simp add: plainKey_def dyn_def dynamicMap_def)

theorem encode_sorted_and_independent_of_map_order_witness:
  "(\<exists>ps qs. emitTop plainEnv (Some (dynamicMap, VMap [(''b'', dyn ''2''), (''a'', dyn ''1'')])) = Inr ps \<and>
         ''a=1&b=2'' = joinAmp (map encodePair qs) \<and>
         sorted (map fst qs) \<and> mset qs = mset ps \<and> samePerKey qs ps) \<and>
   Marshal (plainEnv\<lparr>MapKeys := \<lambda>pos. rev\<rparr>)
     (Some (dynamicMap, VMap [(''b'', dyn ''2''), (''a'', dyn ''1'')])) = Inr ''a=1&b=2''"
proof -
  note T = encode_sorted_and_independent_of_map_order[of plainEnv
      "Some (dynamicMap, VMap [(''b'', dyn ''2''), (''a'', dyn ''1'')])" "''a=1&b=2''"
      plainEnv "plainEnv\<lparr>MapKeys := \<lambda>pos. rev\<rparr>" dynamicMap
      "VMap [(''b'', dyn ''2''), (''a'', dyn ''1'')]" "''a=1&b=2''"]
  have m: "marshalers (plainEnv\<lparr>MapKeys := \<lambda>pos. rev\<rparr>) = marshalers plainEnv" by simp
  from T Marshal_ab plainKeys_ab fairOrder_plainEnv fairOrder_rev m show ?thesis by blast
qed

text \<open>
  Claim C7 as stated fails: a map key that contains brackets can render to the path of an
  entry of a nested map, and then the two values appear under one key in the order in which
  the runtime visited the map.  Two runs on the same value can so give different outputs.
\<close>

theorem encode_depends_on_map_order_counterexample:
  "Marshal plainEnv
     (Some (dynamicMap,
            VMap [(''a[b]'', dyn ''1''),
                  (''a'', VIface dynamicMap (VMap [(''b'', dyn ''2'')]))])) =
     Inr ''a%5Bb%5D=1&a%5Bb%5D=2'' \<and>
   Marshal (plainEnv\<lparr>MapKeys := \<lambda>pos. rev\<rparr>)
     (Some (dynamicMap,
            VMap [(''a[b]'', dyn ''1''),
                  (''a'', VIface dynamicMap (VMap [(''b'', dyn ''2'')]))])) =
     Inr ''a%5Bb%5D=2&a%5Bb%5D=1''"
  by code_simp

text \<open>
  The same happens without any bracket when a nested map has a key type that is not of string
  kind: \<open>Marshal\<close> checks the key type of the top-level map only, and \<open>marshalMap\<close> renders
  every key of a \<open>map[int]string\<close> as the same text.
\<close>

lemma nested_int_keys_collide:
  "Marshal plainEnv
     (Some (dynamicMap,
            VMap [(''m'', VIface (TMap (TInt 64) TString)
                            (VMap [(''1'', VString ''a''), (''2'', VString ''b'')]))])) =
     Inr ''m%5B%3Cint+Value%3E%5D=a&m%5B%3Cint+Value%3E%5D=b'' \<and>
   Marshal (plainEnv\<lparr>MapKeys := \<lambda>pos. rev\<rparr>)
     (Some (dynamicMap,
            VMap [(''m'', VIface (TMap (TInt 64) TString)
                            (VMap [(''1'', VString ''a''), (''2'', VString ''b'')]))])) =
     Inr ''m%5B%3Cint+Value%3E%5D=b&m%5B%3Cint+Value%3E%5D=a''"
  by code_simp

section \<open>The tag cache: properties\<close>

lemma returnedCount_le: "returnedCount s \<le> length (threads s)"
  by (simp add: returnedCount_def)

lemma count_update_returned:
  assumes "i < length ths" "ths ! i = Calling \<or> ths ! i = Computing"
  shows "length (filter (\<lambda>th. th \<noteq> Calling \<and> th \<noteq> Computing) (ths[i := Returned r])) =
         Suc (length (filter (\<lambda>th. th \<noteq> Calling \<and> th \<noteq> Computing) ths))"
  using assms
proof (induction ths arbitrary: i)
  case Nil
  then show ?case by simp
next
  case (Cons a ths)
  then show ?case by (cases i) auto
qed

lemma count_update_computing:
  assumes "i < length ths" "ths ! i = Calling"
  shows "length (filter (\<lambda>th. th \<noteq> Calling \<and> th \<noteq> Computing) (ths[i := Computing])) =
         length (filter (\<lambda>th. th \<noteq> Calling \<and> th \<noteq> Computing) ths)"
  using assms
proof (induction ths arbitrary: i)
  case Nil
  then show ?case by simp
next
  case (Cons a ths)
  then show ?case by (cases i) auto
qed

lemma list_all_update: "list_all P xs \<Longrightarrow> P x \<Longrightarrow> list_all P (xs[i := x])"
  by (induction xs arbitrary: i) (auto split: nat.splits)

lemma length_threads_step [simp]: "length (threads (step t i s)) = length (threads s)"
  by (simp add: step_def split: thread.splits option.splits)

lemma length_threads_run [simp]: "length (threads (run t sched s)) = length (threads s)"
  by (induction sched arbitrary: s) auto

lemma cacheInv_step: "cacheInv t s \<Longrightarrow> cacheInv t (step t i s)"
proof -
  assume inv: "cacheInv t s"
  show ?thesis
  proof (cases "length (threads s) \<le> i")
    case True
    with inv show ?thesis by (simp add: step_def)
  next
    case False
    then have i: "i < length (threads s)" by simp
    show ?thesis
    proof (cases "threads s ! i")
      case Calling
      show ?thesis
      proof (cases "cache s")
        case None
        with inv i Calling show ?thesis
          by (simp add: step_def cacheInv_def returnedCount_def count_update_computing
              list_all_update)
      next
        case (Some c)
        with inv have c: "c = tags t" by (simp add: cacheInv_def)
        with inv i Calling Some show ?thesis
          by (simp add: step_def cacheInv_def returnedCount_def count_update_returned
              list_all_update)
      qed
    next
      case Computing
      with inv i show ?thesis
        by (simp add: step_def cacheInv_def returnedCount_def count_update_returned
            list_all_update)
    next
      case (Returned r)
      with inv i show ?thesis by (simp add: step_def)
    qed
  qed
qed

lemma cacheInv_run: "cacheInv t s \<Longrightarrow> cacheInv t (run t sched s)"
  by (induction sched arbitrary: s) (auto intro: cacheInv_step)

lemma cacheInv_initial: "cacheInv t (initial n)"
  by (simp add: cacheInv_def initial_def returnedCount_def list_all_iff)

lemma cache_kept_step: "cache s = Some c \<Longrightarrow> cacheInv t s \<Longrightarrow> cache (step t i s) = Some c"
  by (auto simp: step_def cacheInv_def split: thread.splits)

lemma filled_cache_hit:
  assumes "cache s = Some c" "i < length (threads s)" "threads s ! i = Calling"
  shows "step t i s = s\<lparr>threads := (threads s)[i := Returned c]\<rparr>"
  using assms by (simp add: step_def)

lemma computations_run_le: "computations (run t sched (initial n)) \<le> n"
proof -
  have "cacheInv t (run t sched (initial n))"
    by (rule cacheInv_run[OF cacheInv_initial])
  then have "computations (run t sched (initial n)) \<le> returnedCount (run t sched (initial n))"
    by (simp add: cacheInv_def)
  also have "\<dots> \<le> length (threads (run t sched (initial n)))" by (rule returnedCount_le)
  also have "\<dots> = n" by (simp add: initial_def)
  finally show ?thesis .
qed

lemma returned_run:
  assumes "i < n" "threads (run t sched (initial n)) ! i = Returned r"
  shows "r = tags t"
proof -
  have inv: "cacheInv t (run t sched (initial n))"
    by (rule cacheInv_run[OF cacheInv_initial])
  have "i < length (threads (run t sched (initial n)))" using assms(1) by (simp add: initial_def)
  with inv assms(2) show ?thesis
    by (auto simp: cacheInv_def list_all_length)
qed

lemma no_computation_after_fill:
  assumes "cacheInv t s" "cache s = Some c" "list_all (\<lambda>th. th \<noteq> Computing) (threads s)"
  shows "computations (run t sched s) = computations s \<and> cache (run t sched s) = Some c"
  using assms
proof (induction sched arbitrary: s)
  case Nil
  then show ?case by simp
next
  case (Cons i sched)
  have inv': "cacheInv t (step t i s)" by (rule cacheInv_step[OF Cons.prems(1)])
  have c': "cache (step t i s) = Some c" by (rule cache_kept_step[OF Cons.prems(2,1)])
  have nc: "list_all (\<lambda>th. th \<noteq> Computing) (threads (step t i s))"
    using Cons.prems(2,3)
    by (auto simp: step_def list_all_length nth_list_update split: thread.splits if_splits)
  have same: "computations (step t i s) = computations s"
  proof (cases "length (threads s) \<le> i")
    case True
    then show ?thesis by (simp add: step_def)
  next
    case False
    with Cons.prems(3) have "threads s ! i \<noteq> Computing"
      by (simp add: list_all_length)
    with False Cons.prems(2) show ?thesis
      by (auto simp: step_def split: thread.splits)
  qed
  from Cons.IH[OF inv' c' nc] same show ?case by simp
qed

text \<open>
  Claim C9 (as amended).  Concurrent first calls for one struct type may each compute the
  tags: a call computes when its \<open>Load\<close> missed, so the tags are computed at most once for
  every concurrent caller, not once in all.  Every computation gives the same tags, so every
  call returns the tags of the type, and the cache only ever holds them.  Once the cache is
  filled and no call is still between its \<open>Load\<close> and its \<open>Store\<close>, no later call computes
  again and the entry does not change.
\<close>

theorem tag_cache_computes_at_most_once_per_caller:
  "computations (run t sched (initial n)) \<le> n \<and>
   (i < n \<and> threads (run t sched (initial n)) ! i = Returned r \<longrightarrow> r = tags t) \<and>
   (cache (run t sched (initial n)) = None \<or> cache (run t sched (initial n)) = Some (tags t)) \<and>
   (cacheInv t s \<and> cache s = Some c \<and> list_all (\<lambda>th. th \<noteq> Computing) (threads s) \<longrightarrow>
      computations (run t sched' s) = computations s \<and> cache (run t sched' s) = Some c)"
proof -
  have "cacheInv t (run t sched (initial n))"
    by (rule cacheInv_run[OF cacheInv_initial])
  then have "cache (run t sched (initial n)) = None \<or> cache (run t sched (initial n)) = Some (tags t)"
    by (simp add: cacheInv_def)
  then show ?thesis
    using computations_run_le returned_run no_computation_after_fill by blast
qed

lemma cacheInv_example: "cacheInv Person (run Person [0, 0] (initial 2))"
  by code_simp

lemma cache_example: "cache (run Person [0, 0] (initial 2)) = Some (tags Person)"
  by code_simp

lemma threads_example:
  "list_all (\<lambda>th. th \<noteq> Computing) (threads (run Person [0, 0] (initial 2)))"
  by code_simp

lemma computations_example: "computations (run Person [0, 0] (initial 2)) = 1"
  by code_simp

theorem tag_cache_computes_at_most_once_per_caller_witness:
  "computations (run Person [0, 1, 0, 1] (initial 2)) \<le> 2 \<and>
   computations (run Person [1, 1] (run Person [0, 0] (initial 2))) = 1 \<and>
   cache (run Person [1, 1] (run Person [0, 0] (initial 2))) = Some (tags Person)"
proof -
  note T = tag_cache_computes_at_most_once_per_caller[of Person "[0, 1, 0, 1]" 2 0 "tags Person"
      "run Person [0, 0] (initial 2)" "tags Person" "[1, 1]"]
  from T have A: "computations (run Person [0, 1, 0, 1] (initial 2)) \<le> 2" by (rule conjunct1)
  from T cacheInv_example cache_example threads_example
  have D: "computations (run Person [1, 1] (run Person [0, 0] (initial 2))) =
             computations (run Person [0, 0] (initial 2)) \<and>
           cache (run Person [1, 1] (run Person [0, 0] (initial 2))) = Some (tags Person)"
    by blast
  from D computations_example
  have E: "computations (run Person [1, 1] (run Person [0, 0] (initial 2))) = 1"
    by (elim conjE) (erule trans)
  from A E D show ?thesis by blast
qed

text \<open>
  Claim C9 as stated fails: when two first calls both do their \<open>Load\<close> before either does
  its \<open>Store\<close>, both miss and both compute the tags.
\<close>

theorem tag_cache_computes_twice_counterexample:
  "computations (run Person [0, 1, 0, 1] (initial 2)) = 2 \<and>
   threads (run Person [0, 1, 0, 1] (initial 2)) = [Returned (tags Person), Returned (tags Person)]"
  by code_simp

section \<open>Round trip through a dynamic map: properties\<close>

lemma samePerKey_sym: "samePerKey ps qs \<Longrightarrow> samePerKey qs ps"
  by (simp add: samePerKey_def)

lemma samePerKey_trans: "samePerKey ps qs \<Longrightarrow> samePerKey qs rs \<Longrightarrow> samePerKey ps rs"
  by (simp add: samePerKey_def)

lemma samePerKey_commute:
  assumes "y \<notin> fst ` set R"
  shows "samePerKey ((y, v) # R) (R @ [(y, v)])"
proof -
  have "onKey y R = []" using assms by (simp add: onKey_empty_iff)
  then show ?thesis
    by (auto simp: samePerKey_def onKey_def)
qed

lemma leaves_keys: "p \<in> set (leaves path x) \<Longrightarrow> \<exists>q. fst p = render (path @ q)"
proof (induction path x arbitrary: p rule: leaves.induct)
  case (1 path t s)
  then show ?case by (auto intro: exI[of _ "[]"])
next
  case (2 path t xs)
  then obtain x where "x \<in> set xs" "p \<in> set (leaves (path @ ['''']) x)" by auto
  from "2.IH"[OF this] obtain q where "fst p = render ((path @ ['''']) @ q)" by auto
  then show ?case by (auto intro: exI[of _ "[] # q"])
next
  case (3 path t es)
  then obtain e where e: "e \<in> set es" "p \<in> set (leaves (path @ [fst e]) (snd e))" by auto
  from "3.IH"[OF this] obtain q where "fst p = render ((path @ [fst e]) @ q)" by auto
  then show ?case by (auto intro: exI[of _ "fst e # q"])
qed auto

lemma accepts_None [simp]: "accepts None p"
  by (cases p) auto

lemma dynElem_entry:
  assumes "dynElem (VIface t (VMap es))" "map_of es k = Some x"
  shows "dynElem x \<and> plainKey k \<and> (\<exists>dt dv. x = VIface dt dv)"
proof -
  from assms(2) have "(k, x) \<in> set es" by (rule map_of_SomeD)
  with assms(1) have d: "dynElem x" "plainKey k" by (auto simp: list_all_iff)
  from d(1) have "\<exists>dt dv. x = VIface dt dv" by (cases x) auto
  with d show ?thesis by simp
qed

lemma dynOpt_entry:
  assumes "dynElem (VIface t (VMap es))"
  shows "dynOpt (valueOf (map_of es k))"
proof (cases "map_of es k")
  case None
  then show ?thesis by (simp add: valueOf_def dynOpt_def)
next
  case (Some x)
  from dynElem_entry[OF assms Some] show ?thesis
    by (auto simp: valueOf_def dynOpt_def Some)
qed

lemma leavesOpt_entry:
  assumes "dynElem (VIface t (VMap es))"
  shows "leavesOpt path (valueOf (map_of es k)) =
         (case map_of es k of None \<Rightarrow> [] | Some x \<Rightarrow> leaves path x)"
proof (cases "map_of es k")
  case None
  then show ?thesis by (simp add: valueOf_def leavesOpt_def)
next
  case (Some x)
  from dynElem_entry[OF assms Some] show ?thesis
    by (auto simp: valueOf_def leavesOpt_def Some)
qed

lemma map_set_keys: "set (map fst (map_set es k x)) = insert k (set (map fst es))"
proof (induction es)
  case Nil
  then show ?case by simp
next
  case (Cons e es)
  obtain k' x' where e: "e = (k', x')" by (cases e)
  show ?case
  proof (cases "k' = k")
    case True
    with e show ?thesis by simp
  next
    case False
    with e Cons show ?thesis by (simp add: insert_commute)
  qed
qed

lemma map_set_distinct: "distinct (map fst es) \<Longrightarrow> distinct (map fst (map_set es k x))"
proof (induction es)
  case Nil
  then show ?case by simp
next
  case (Cons e es)
  obtain k' x' where e: "e = (k', x')" by (cases e)
  show ?case
  proof (cases "k' = k")
    case True
    with Cons e show ?thesis by simp
  next
    case False
    have "set (map fst (map_set es k x)) = insert k (set (map fst es))" by (rule map_set_keys)
    with Cons e False show ?thesis by simp
  qed
qed

lemma map_set_all:
  "list_all P es \<Longrightarrow> P (k, x) \<Longrightarrow> list_all P (map_set es k x)"
  by (induction es) auto

lemma map_of_map_set:
  "map_of (map_set es k x) k' = (if k' = k then Some x else map_of es k')"
  by (induction es) auto

lemma leaves_map_set:
  assumes "distinct (map fst es)" "list_all (\<lambda>e. plainKey (fst e)) es" "plainKey k"
    and "samePerKey (leaves (pre @ [k]) new)
           ((case map_of es k of None \<Rightarrow> [] | Some x \<Rightarrow> leaves (pre @ [k]) x) @
            [(render (pre @ k # q), val)])"
  shows "samePerKey (concat (map (\<lambda>e. leaves (pre @ [fst e]) (snd e)) (map_set es k new)))
           (concat (map (\<lambda>e. leaves (pre @ [fst e]) (snd e)) es) @ [(render (pre @ k # q), val)])"
  using assms
proof (induction es)
  case Nil
  then show ?case by simp
next
  case (Cons e es)
  obtain k' x' where e: "e = (k', x')" by (cases e)
  let ?R = "concat (map (\<lambda>e. leaves (pre @ [fst e]) (snd e)) es)"
  let ?t = "(render (pre @ k # q), val)"
  show ?case
  proof (cases "k' = k")
    case True
    have notin: "fst ?t \<notin> fst ` set ?R"
    proof
      assume "fst ?t \<in> fst ` set ?R"
      then obtain p e' where e': "e' \<in> set es" "p \<in> set (leaves (pre @ [fst e']) (snd e'))"
        and p: "fst p = render (pre @ k # q)" by auto
      from leaves_keys[OF e'(2)] obtain q' where "fst p = render ((pre @ [fst e']) @ q')" by auto
      with p have "render (pre @ k # q) = render (pre @ fst e' # q')" by simp
      moreover have "plainKey (fst e')" using Cons.prems(2) e'(1) by (auto simp: list_all_iff)
      ultimately have "k = fst e'" using render_step_inj Cons.prems(3) by blast
      with e'(1) Cons.prems(1) e True show False by auto
    qed
    from Cons.prems(4) e True
    have new: "samePerKey (leaves (pre @ [k]) new) (leaves (pre @ [k]) x' @ [?t])" by simp
    have "samePerKey (leaves (pre @ [k]) new @ ?R) ((leaves (pre @ [k]) x' @ [?t]) @ ?R)"
      by (rule samePerKey_append[OF new samePerKey_refl])
    moreover have "samePerKey ((leaves (pre @ [k]) x' @ [?t]) @ ?R) (leaves (pre @ [k]) x' @ (?R @ [?t]))"
      using samePerKey_append[OF samePerKey_refl[of "leaves (pre @ [k]) x'"] samePerKey_commute[OF notin]]
      by simp
    ultimately have "samePerKey (leaves (pre @ [k]) new @ ?R) (leaves (pre @ [k]) x' @ (?R @ [?t]))"
      by (rule samePerKey_trans)
    with e True show ?thesis by simp
  next
    case False
    from Cons.prems e False
    have "samePerKey (concat (map (\<lambda>e. leaves (pre @ [fst e]) (snd e)) (map_set es k new))) (?R @ [?t])"
      by (intro Cons.IH) auto
    from samePerKey_append[OF samePerKey_refl[of "leaves (pre @ [k']) x'"] this] e False
    show ?thesis by simp
  qed
qed

lemma existingSlice_dyn:
  "existingSlice (Some (TSlice TInterface, VSlice xs)) = Inr xs"
  by (simp add: existingSlice_def isNil_def dynamicOf_def sliceElems_def)

lemma existingMap_dyn:
  "existingMap (Some (TMap TString TInterface, VMap es)) = Inr (Some es)"
  by (simp add: existingMap_def isNil_def dynamicOf_def)

lemma dynElem_cases:
  assumes "dynElem (VIface dt dv)"
  obtains s where "dt = TString" "dv = VString s"
  | xs where "dt = TSlice TInterface" "dv = VSlice xs" "list_all dynElem xs"
  | es where "dt = TMap TString TInterface" "dv = VMap es" "distinct (map fst es)"
      "list_all (\<lambda>e. plainKey (fst e) \<and> dynElem (snd e)) es"
  using assms by (cases dv) auto

lemma infer_leaves:
  assumes "dynOpt v" "accepts v p" "list_all (\<lambda>s. plainKey (Key s) \<and> (Index s \<longrightarrow> Key s = [])) p"
  shows "\<exists>dt dv. inferInterfaceValue v p val = Inr (dt, dv) \<and> dynElem (VIface dt dv) \<and>
           samePerKey (leaves pre (VIface dt dv))
             (leavesOpt pre v @ [(render (pre @ map Key p), val)])"
  using assms
proof (induction p arbitrary: v pre)
  case Nil
  then show ?case by (simp add: leavesOpt_def)
next
  case (Cons s rest)
  from Cons.prems(3) have pk: "plainKey (Key s)" and ix: "Index s \<longrightarrow> Key s = []"
    and rest: "list_all (\<lambda>s. plainKey (Key s) \<and> (Index s \<longrightarrow> Key s = [])) rest"
    by simp_all
  show ?case
  proof (cases "Index s")
    case True
    with ix have ks: "Key s = []" by simp
    have "\<exists>xs. existingSlice v = Inr xs \<and> list_all dynElem xs \<and>
            leavesOpt pre v = concat (map (leaves (pre @ [''''])) xs)"
    proof (cases v)
      case None
      then show ?thesis by (simp add: existingSlice_None leavesOpt_def)
    next
      case (Some a)
      obtain dt dv where a: "a = (dt, dv)" by (cases a)
      from Cons.prems(1) Some a have d: "dynElem (VIface dt dv)" by (simp add: dynOpt_def)
      from Cons.prems(2) Some a True obtain xs where xs: "dv = VSlice xs"
        by (cases dv) auto
      with d have "dt = TSlice TInterface" "list_all dynElem xs" by auto
      with Some a xs show ?thesis by (simp add: existingSlice_dyn leavesOpt_def)
    qed
    then obtain xs where xs: "existingSlice v = Inr xs" "list_all dynElem xs"
      "leavesOpt pre v = concat (map (leaves (pre @ [''''])) xs)" by auto
    have "dynOpt None" by (simp add: dynOpt_def)
    from Cons.IH[OF this accepts_None rest, of "pre @ ['''']"] obtain et ev where
      e: "inferInterfaceValue None rest val = Inr (et, ev)" "dynElem (VIface et ev)"
      "samePerKey (leaves (pre @ ['''']) (VIface et ev))
         [(render ((pre @ ['''']) @ map Key rest), val)]"
      by (auto simp: leavesOpt_def)
    have r: "inferInterfaceValue v (s # rest) val =
             Inr (TSlice TInterface, VSlice (xs @ [VIface et ev]))"
      using True xs(1) e(1) by simp
    have d: "dynElem (VIface (TSlice TInterface) (VSlice (xs @ [VIface et ev])))"
      using xs(2) e(2) by simp
    have "samePerKey (concat (map (leaves (pre @ [''''])) xs) @ leaves (pre @ ['''']) (VIface et ev))
            (concat (map (leaves (pre @ [''''])) xs) @ [(render ((pre @ ['''']) @ map Key rest), val)])"
      by (rule samePerKey_append[OF samePerKey_refl e(3)])
    then have "samePerKey (leaves pre (VIface (TSlice TInterface) (VSlice (xs @ [VIface et ev]))))
            (leavesOpt pre v @ [(render (pre @ map Key (s # rest)), val)])"
      using xs(3) ks by simp
    with r d show ?thesis by blast
  next
    case False
    let ?k = "Key s"
    have "\<exists>es. existingMap v = Inr (Some es) \<and> dynElem (VIface (TMap TString TInterface) (VMap es)) \<and>
            leavesOpt pre v = concat (map (\<lambda>e. leaves (pre @ [fst e]) (snd e)) es) \<and>
            accepts (valueOf (map_of es ?k)) rest"
    proof (cases v)
      case None
      then show ?thesis by (simp add: existingMap_None leavesOpt_def valueOf_def)
    next
      case (Some a)
      obtain dt dv where a: "a = (dt, dv)" by (cases a)
      from Cons.prems(1) Some a have d: "dynElem (VIface dt dv)" by (simp add: dynOpt_def)
      from Cons.prems(2) Some a False obtain es where es: "dv = VMap es"
        "accepts (valueOf (map_of es ?k)) rest"
        by (cases dv) auto
      with d have "dt = TMap TString TInterface" by auto
      with Some a es d show ?thesis by (simp add: existingMap_dyn leavesOpt_def)
    qed
    then obtain es where es: "existingMap v = Inr (Some es)"
      "dynElem (VIface (TMap TString TInterface) (VMap es))"
      "leavesOpt pre v = concat (map (\<lambda>e. leaves (pre @ [fst e]) (snd e)) es)"
      "accepts (valueOf (map_of es ?k)) rest" by auto
    from Cons.IH[OF dynOpt_entry[OF es(2)] es(4) rest, of "pre @ [?k]"] obtain et ev where
      e: "inferInterfaceValue (valueOf (map_of es ?k)) rest val = Inr (et, ev)"
      "dynElem (VIface et ev)"
      "samePerKey (leaves (pre @ [?k]) (VIface et ev))
         (leavesOpt (pre @ [?k]) (valueOf (map_of es ?k)) @
          [(render ((pre @ [?k]) @ map Key rest), val)])"
      by auto
    let ?es' = "map_set es ?k (VIface et ev)"
    have r: "inferInterfaceValue v (s # rest) val = Inr (TMap TString TInterface, VMap ?es')"
      using False es(1) e(1) by simp
    from es(2) have dist: "distinct (map fst es)"
      and all: "list_all (\<lambda>e. plainKey (fst e) \<and> dynElem (snd e)) es" by simp_all
    have d: "dynElem (VIface (TMap TString TInterface) (VMap ?es'))"
      using map_set_distinct[OF dist] map_set_all[OF all, of ?k "VIface et ev"] pk e(2) by simp
    have pks: "list_all (\<lambda>e. plainKey (fst e)) es" using all by (simp add: list_all_iff)
    from e(3) have e3: "samePerKey (leaves (pre @ [?k]) (VIface et ev))
         ((case map_of es ?k of None \<Rightarrow> [] | Some x \<Rightarrow> leaves (pre @ [?k]) x) @
          [(render (pre @ ?k # map Key rest), val)])"
      by (simp add: leavesOpt_entry[OF es(2)])
    from leaves_map_set[OF dist pks pk e3] es(3)
    have "samePerKey (leaves pre (VIface (TMap TString TInterface) (VMap ?es')))
            (leavesOpt pre v @ [(render (pre @ map Key (s # rest)), val)])"
      by simp
    with r d show ?thesis by blast
  qed
qed

text \<open>What a slot accepts after an assignment.\<close>

lemma accepts_after:
  assumes "dynOpt v" "accepts v p" "inferInterfaceValue v p val = Inr r"
  shows "accepts (Some r) q = (accepts v q \<and> compatRel p q)"
  using assms
proof (induction p arbitrary: v q r)
  case Nil
  then have "r = (TString, VString val)" by simp
  then show ?case by (cases q) auto
next
  case (Cons s rest)
  show ?case
  proof (cases "Index s")
    case True
    have "\<exists>xs. existingSlice v = Inr xs \<and> (v = None \<or> v = Some (TSlice TInterface, VSlice xs))"
    proof (cases v)
      case None
      then show ?thesis by (simp add: existingSlice_None)
    next
      case (Some a)
      obtain dt dv where a: "a = (dt, dv)" by (cases a)
      from Cons.prems(1) Some a have d: "dynElem (VIface dt dv)" by (simp add: dynOpt_def)
      from Cons.prems(2) Some a True obtain xs where xs: "dv = VSlice xs"
        by (cases dv) auto
      with d have "dt = TSlice TInterface" by auto
      with Some a xs show ?thesis by (simp add: existingSlice_dyn)
    qed
    then obtain xs where xs: "existingSlice v = Inr xs"
      "v = None \<or> v = Some (TSlice TInterface, VSlice xs)" by auto
    obtain et ev where "inferInterfaceValue None rest val = Inr (et, ev)"
      using inferInterfaceValue_None_total by (metis surj_pair)
    with Cons.prems(3) True xs(1) have r: "r = (TSlice TInterface, VSlice (xs @ [VIface et ev]))"
      by simp
    show ?thesis
    proof (cases q)
      case Nil
      with r show ?thesis by simp
    next
      case (Cons s' q')
      with r True xs(2) show ?thesis by auto
    qed
  next
    case False
    let ?k = "Key s"
    have "\<exists>es. existingMap v = Inr (Some es) \<and> dynElem (VIface (TMap TString TInterface) (VMap es)) \<and>
            (v = None \<and> es = [] \<or> v = Some (TMap TString TInterface, VMap es)) \<and>
            accepts (valueOf (map_of es ?k)) rest"
    proof (cases v)
      case None
      then show ?thesis by (simp add: existingMap_None valueOf_def)
    next
      case (Some a)
      obtain dt dv where a: "a = (dt, dv)" by (cases a)
      from Cons.prems(1) Some a have d: "dynElem (VIface dt dv)" by (simp add: dynOpt_def)
      from Cons.prems(2) Some a False obtain es where es: "dv = VMap es"
        "accepts (valueOf (map_of es ?k)) rest"
        by (cases dv) auto
      with d have "dt = TMap TString TInterface" by auto
      with Some a es d show ?thesis by (simp add: existingMap_dyn)
    qed
    then obtain es where es: "existingMap v = Inr (Some es)"
      "dynElem (VIface (TMap TString TInterface) (VMap es))"
      "v = None \<and> es = [] \<or> v = Some (TMap TString TInterface, VMap es)"
      "accepts (valueOf (map_of es ?k)) rest" by auto
    obtain et ev where e: "inferInterfaceValue (valueOf (map_of es ?k)) rest val = Inr (et, ev)"
      using Cons.prems(3) False es(1) by (auto split: sum.splits)
    with Cons.prems(3) False es(1)
    have r: "r = (TMap TString TInterface, VMap (map_set es ?k (VIface et ev)))" by simp
    note IH = Cons.IH[OF dynOpt_entry[OF es(2)] es(4) e]
    show ?thesis
    proof (cases q)
      case Nil
      with r show ?thesis by simp
    next
      case (Cons s' q')
      show ?thesis
      proof (cases "Index s'")
        case True
        with r Cons False show ?thesis by simp
      next
        case ni: False
        show ?thesis
        proof (cases "Key s' = ?k")
          case True
          have "accepts (Some r) q = accepts (Some (et, ev)) q'"
            using r Cons ni True by (simp add: map_of_map_set valueOf_def)
          also have "\<dots> = (accepts (valueOf (map_of es ?k)) q' \<and> compatRel rest q')"
            by (rule IH)
          also have "accepts (valueOf (map_of es ?k)) q' = accepts v q"
            using es(3) Cons ni True by (auto simp: valueOf_def)
          finally show ?thesis using Cons ni True False by simp
        next
          case ne: False
          have "accepts (Some r) q = accepts (valueOf (map_of es (Key s'))) q'"
            using r Cons ni ne by (simp add: map_of_map_set)
          also have "\<dots> = accepts v q"
            using es(3) Cons ni by (auto simp: valueOf_def)
          finally show ?thesis using Cons ni ne False by auto
        qed
      qed
    qed
  qed
qed

text \<open>
  The element of the top-level map reaches \<open>inferInterfaceValue\<close> as a value of interface
  kind, the element of a nested map as the value it holds; the result is the same.
\<close>

lemma infer_interface_kind:
  assumes "dynElem (VIface dt dv)" "accepts (Some (dt, dv)) p"
  shows "inferInterfaceValue (Some (TInterface, VIface dt dv)) p val =
         inferInterfaceValue (Some (dt, dv)) p val"
proof (cases p)
  case Nil
  then show ?thesis by simp
next
  case (Cons s rest)
  show ?thesis
  proof (cases "Index s")
    case True
    with assms(2) Cons obtain xs where xs: "dv = VSlice xs" by (cases dv) auto
    with assms(1) have dt: "dt = TSlice TInterface" by simp
    have "existingSlice (Some (TInterface, VIface dt dv)) = existingSlice (Some (dt, dv))"
      using xs dt by (simp add: existingSlice_def isNil_def dynamicOf_def)
    with Cons True show ?thesis by simp
  next
    case False
    with assms(2) Cons obtain es where es: "dv = VMap es" by (cases dv) auto
    with assms(1) have dt: "dt = TMap TString TInterface" by simp
    have "existingMap (Some (TInterface, VIface dt dv)) = existingMap (Some (dt, dv))"
      using es dt by (simp add: existingMap_def isNil_def dynamicOf_def)
    with Cons False show ?thesis by simp
  qed
qed

lemma asMarshaler_dyn:
  assumes "dt = TString \<or> dt = TSlice TInterface \<or> dt = TMap TString TInterface \<or> dt = TInterface"
  shows "marshalerOfConcrete env dt dv = None" "marshalerOfConcrete env (TPtr dt) pv = None"
  using assms by (auto simp: marshalerOfConcrete_def)

lemma asMarshaler_dyn_iface:
  assumes "dt = TString \<or> dt = TSlice TInterface \<or> dt = TMap TString TInterface"
  shows "asMarshaler env a TInterface (VIface dt dv) = None" "asMarshaler env a dt dv = None"
  using assms by (auto simp: asMarshaler_def marshalerOf_def marshalerOfConcrete_def)

lemma emit_string:
  assumes "path \<noteq> []"
  shows "emitValue env path pos a False TString (VString s) = Inr [(render path, s)]"
  using assms
  by (subst emitValue.simps)
     (simp add: elemM_def asMarshaler_dyn_iface emitScalar_def renderPath_render getScalar_def)

lemma emit_iface:
  assumes "dt = TString \<or> dt = TSlice TInterface \<or> dt = TMap TString TInterface"
  shows "emitValue env path pos a False TInterface (VIface dt dv) =
         emitValue env path pos False False dt dv"
  using assms
  by (subst emitValue.simps) (auto simp: elemM_def asMarshaler_dyn_iface)

lemma emit_slice:
  "emitValue env path pos a False (TSlice TInterface) (VSlice xs) =
     seqE (map (\<lambda>(i, x). if x = VNil then Inr []
                          else emitValue env (path @ ['''']) (pos @ [FormatUint i]) True False
                                 TInterface x)
               (enumerate 0 xs))"
  by (subst emitValue.simps)
     (simp add: elemM_def asMarshaler_dyn_iface sliceElems_def cong: if_cong)

lemma emit_map:
  "emitValue env path pos a False (TMap TString TInterface) v =
     seqE (map (\<lambda>k. case map_of (mapEntries v) k of
                       None \<Rightarrow> Inr []
                     | Some mv \<Rightarrow>
                         if mv = VNil then Inr []
                         else emitValue env (path @ [k]) (pos @ [k]) False False TInterface mv)
               (MapKeys env pos (map fst (mapEntries v))))"
  by (subst emitValue.simps)
     (simp add: elemM_def asMarshaler_dyn_iface keyText_def cong: option.case_cong if_cong)

lemma seqE_all_Inr:
  assumes "\<forall>x\<in>set xs. F x = Inr (f x)"
  shows "seqE (map F xs) = Inr (concat (map f xs))"
  using assms
proof (induction xs)
  case Nil
  then show ?case by simp
next
  case (Cons x xs)
  then show ?case by (simp add: seqE_Inr)
qed

lemma concat_enumerate:
  "concat (map (\<lambda>ix. g (snd ix)) (enumerate n xs)) = concat (map g xs)"
  by (induction xs arbitrary: n) simp_all

lemma dynElem_not_nil: "dynElem x \<Longrightarrow> x \<noteq> VNil"
  by auto

lemma distinct_map_of_entries:
  assumes "distinct (map fst es)"
  shows "map (\<lambda>k. g k (map_of es k)) (map fst es) = map (\<lambda>e. g (fst e) (Some (snd e))) es"
  using assms
proof (induction es)
  case Nil
  then show ?case by simp
next
  case (Cons e es)
  obtain k x where e: "e = (k, x)" by (cases e)
  from Cons.prems e have k: "k \<notin> fst ` set es" and d: "distinct (map fst es)" by auto
  have "map (\<lambda>k'. g k' (map_of ((k, x) # es) k')) (map fst es) =
        map (\<lambda>k'. g k' (map_of es k')) (map fst es)"
    by (rule map_cong[OF refl]) (use k in auto)
  with Cons.IH[OF d] e show ?case by simp
qed

lemma emit_entries:
  assumes "distinct (map fst es)"
    and "\<forall>e\<in>set es. snd e \<noteq> VNil \<and>
           emitValue env (path @ [fst e]) (pos @ [fst e]) False False TInterface (snd e) =
             Inr (leaves (path @ [fst e]) (snd e))"
  shows "seqE (map (\<lambda>k. case map_of es k of
                           None \<Rightarrow> Inr []
                         | Some mv \<Rightarrow>
                             if mv = VNil then Inr []
                             else emitValue env (path @ [k]) (pos @ [k]) False False TInterface mv)
                   (map fst es)) =
         Inr (concat (map (\<lambda>e. leaves (path @ [fst e]) (snd e)) es))"
proof -
  let ?G = "\<lambda>k r. case r of
                    None \<Rightarrow> Inr []
                  | Some mv \<Rightarrow>
                      if mv = VNil then Inr []
                      else emitValue env (path @ [k]) (pos @ [k]) False False TInterface mv"
  have "seqE (map (\<lambda>k. ?G k (map_of es k)) (map fst es)) =
        seqE (map (\<lambda>e. ?G (fst e) (Some (snd e))) es)"
    by (rule arg_cong[where f = seqE], rule distinct_map_of_entries[OF assms(1), of ?G])
  also have "\<dots> = Inr (concat (map (\<lambda>e. leaves (path @ [fst e]) (snd e)) es))"
    by (rule seqE_all_Inr) (use assms(2) in simp)
  finally show ?thesis .
qed

text \<open>
  When the runtime visits the entries of every map in the order of the list, the traversal
  emits the leaves.
\<close>

lemma emit_leaves:
  assumes "\<forall>pos ks. MapKeys env pos ks = ks"
  shows "dynElem x \<Longrightarrow> path \<noteq> [] \<Longrightarrow>
         emitValue env path pos a False TInterface x = Inr (leaves path x)"
proof (induction path x arbitrary: a pos rule: leaves.induct)
  case (1 path t s)
  then show ?case by (simp add: emit_iface emit_string)
next
  case (2 path t xs)
  from "2.prems" have t: "t = TSlice TInterface" and all: "list_all dynElem xs" by simp_all
  let ?F = "\<lambda>ix. case ix of (i, x) \<Rightarrow>
              if x = VNil then Inr []
              else emitValue env (path @ ['''']) (pos @ [FormatUint i]) True False TInterface x"
  have "\<forall>ix\<in>set (enumerate 0 xs). ?F ix = Inr (leaves (path @ ['''']) (snd ix))"
  proof
    fix ix assume ix: "ix \<in> set (enumerate 0 xs)"
    obtain i x where e: "ix = (i, x)" by (cases ix)
    from ix e have x: "x \<in> set xs" by (auto simp: in_set_enumerate_eq)
    with all have d: "dynElem x" by (simp add: list_all_iff)
    from "2.IH"[OF x d, of "pos @ [FormatUint i]" True] dynElem_not_nil[OF d] e
    show "?F ix = Inr (leaves (path @ ['''']) (snd ix))" by simp
  qed
  from seqE_all_Inr[OF this]
  have "seqE (map ?F (enumerate 0 xs)) = Inr (concat (map (leaves (path @ [''''])) xs))"
    by (simp only: concat_enumerate)
  with t show ?case
    by (simp add: emit_iface emit_slice)
next
  case (3 path t es)
  from "3.prems" have t: "t = TMap TString TInterface" and dist: "distinct (map fst es)"
    and all: "list_all (\<lambda>e. plainKey (fst e) \<and> dynElem (snd e)) es" by simp_all
  have "\<forall>e\<in>set es. snd e \<noteq> VNil \<and>
           emitValue env (path @ [fst e]) (pos @ [fst e]) False False TInterface (snd e) =
             Inr (leaves (path @ [fst e]) (snd e))"
  proof
    fix e assume e: "e \<in> set es"
    with all have d: "dynElem (snd e)" by (auto simp: list_all_iff)
    from "3.IH"[OF e d, of "pos @ [fst e]" False] dynElem_not_nil[OF d]
    show "snd e \<noteq> VNil \<and>
           emitValue env (path @ [fst e]) (pos @ [fst e]) False False TInterface (snd e) =
             Inr (leaves (path @ [fst e]) (snd e))" by simp
  qed
  from emit_entries[OF dist this] t assms show ?case
    by (simp add: emit_iface emit_map mapEntries_def)
qed auto

lemma emit_root:
  assumes "\<forall>pos ks. MapKeys env pos ks = ks"
    and "dynElem (VIface (TMap TString TInterface) (VMap (mapEntries V)))"
  shows "emitValue env [] [] a False (TMap TString TInterface) V =
         Inr (leaves [] (VIface (TMap TString TInterface) (VMap (mapEntries V))))"
proof -
  let ?es = "mapEntries V"
  from assms(2) have dist: "distinct (map fst ?es)"
    and all: "list_all (\<lambda>e. plainKey (fst e) \<and> dynElem (snd e)) ?es" by simp_all
  have "\<forall>e\<in>set ?es. snd e \<noteq> VNil \<and>
           emitValue env ([] @ [fst e]) ([] @ [fst e]) False False TInterface (snd e) =
             Inr (leaves ([] @ [fst e]) (snd e))"
  proof
    fix e assume e: "e \<in> set ?es"
    with all have d: "dynElem (snd e)" by (auto simp: list_all_iff)
    from emit_leaves[OF assms(1) d, of "[] @ [fst e]" "[] @ [fst e]" False] dynElem_not_nil[OF d]
    show "snd e \<noteq> VNil \<and>
           emitValue env ([] @ [fst e]) ([] @ [fst e]) False False TInterface (snd e) =
             Inr (leaves ([] @ [fst e]) (snd e))" by simp
  qed
  from emit_entries[OF dist this] assms(1) show ?thesis
    by (simp add: emit_map)
qed

lemma dynElem_plainKeys: "dynElem x \<Longrightarrow> plainKeys t x"
proof (induction x arbitrary: t rule: dynElem.induct)
  case (1 t s)
  then show ?case by simp
next
  case (2 t xs)
  then show ?case by (auto simp: list_all_iff)
next
  case (3 t es)
  then show ?case by (auto simp: list_all_iff)
qed auto

lemma plainPath_rooted:
  assumes "plainPath p"
  shows "\<exists>s rest. p = s # rest \<and> rooted p = s\<lparr>Index := False\<rparr> # rest \<and>
           list_all (\<lambda>s. plainKey (Key s) \<and> (Index s \<longrightarrow> Key s = [])) (rooted p) \<and>
           map Key (rooted p) = map Key p"
  using assms by (cases p) (auto simp: plainPath_def rooted_def)

lemma root_step:
  assumes "V = VNil \<or> V = VMap (mapEntries V)" "dynElem (rootElem V)" "plainPath p"
    "accepts (rootOpt V) (rooted p)"
  shows "\<exists>es'. assign env True dynamicMap V p val = (VMap es', None) \<and>
           inferInterfaceValue (rootOpt V) (rooted p) val = Inr (TMap TString TInterface, VMap es')"
proof -
  from plainPath_rooted[OF assms(3)] obtain s rest where
    p: "p = s # rest" and r: "rooted p = s\<lparr>Index := False\<rparr> # rest" by auto
  let ?m = "mapEntries V"
  let ?elem = "map_of ?m (Key s)"
  from assms(2) have d: "dynElem (VIface (TMap TString TInterface) (VMap ?m))"
    by (simp add: rootElem_def)
  from assms(4) r have acc: "accepts (valueOf ?elem) rest"
    by (simp add: rootOpt_def)
  have same: "inferInterfaceValue (map_option (Pair TInterface) ?elem) rest val =
              inferInterfaceValue (valueOf ?elem) rest val"
  proof (cases ?elem)
    case None
    then show ?thesis by (simp add: valueOf_def)
  next
    case (Some x)
    from dynElem_entry[OF d Some] obtain dt dv where x: "x = VIface dt dv" "dynElem x" by auto
    with acc Some have "accepts (Some (dt, dv)) rest" by (simp add: valueOf_def)
    from infer_interface_kind[OF x(2)[unfolded x(1)] this] Some x(1)
    show ?thesis by (simp add: valueOf_def)
  qed
  have "dynOpt (valueOf ?elem)" by (rule dynOpt_entry[OF d])
  from infer_leaves[OF this acc, of val "[]"] plainPath_rooted[OF assms(3)] p r
  obtain et ev where e: "inferInterfaceValue (valueOf ?elem) rest val = Inr (et, ev)"
    by auto
  have a: "assign env True dynamicMap V p val = (VMap (map_set ?m (Key s) (VIface et ev)), None)"
    using same e p
    by (simp add: assign_map_step dynamicMap_def assignMapValue.simps)
  have i: "inferInterfaceValue (rootOpt V) (rooted p) val =
           Inr (TMap TString TInterface, VMap (map_set ?m (Key s) (VIface et ev)))"
    using e r by (simp add: rootOpt_def existingMap_dyn)
  from a i show ?thesis by blast
qed

lemma mapEntries_VMap [simp]: "mapEntries (VMap es) = es"
  by (simp add: mapEntries_def)

lemma decode_pairs:
  assumes "V = VNil \<or> V = VMap (mapEntries V)" "dynElem (rootElem V)"
    "list_all plainPath (map fst ps)" "consistent (map fst ps)"
    "list_all (\<lambda>p. accepts (rootOpt V) (rooted p)) (map fst ps)"
  shows "\<exists>V'. assignPairs env True dynamicMap V ps = (V', None) \<and>
           (V' = VNil \<or> V' = VMap (mapEntries V')) \<and> dynElem (rootElem V') \<and>
           samePerKey (leaves [] (rootElem V')) (leaves [] (rootElem V) @ map rendered ps)"
  using assms
proof (induction ps arbitrary: V)
  case Nil
  then show ?case by simp
next
  case (Cons pv ps)
  obtain p val where pv: "pv = (p, val)" by (cases pv)
  from Cons.prems(3) pv have pp: "plainPath p" and pps: "list_all plainPath (map fst ps)"
    by simp_all
  from Cons.prems(4) pv have cp: "list_all (compatible p) (map fst ps)"
    and cons: "consistent (map fst ps)" by simp_all
  from Cons.prems(5) pv have ap: "accepts (rootOpt V) (rooted p)"
    and aps: "list_all (\<lambda>p. accepts (rootOpt V) (rooted p)) (map fst ps)" by simp_all
  from root_step[OF Cons.prems(1,2) pp ap, of env val] obtain es' where
    a: "assign env True dynamicMap V p val = (VMap es', None)"
    and i: "inferInterfaceValue (rootOpt V) (rooted p) val = Inr (TMap TString TInterface, VMap es')"
    by auto
  have dv: "dynOpt (rootOpt V)" using Cons.prems(2) by (simp add: dynOpt_def rootOpt_def rootElem_def)
  from plainPath_rooted[OF pp] have
    pl: "list_all (\<lambda>s. plainKey (Key s) \<and> (Index s \<longrightarrow> Key s = [])) (rooted p)"
    and mk: "map Key (rooted p) = map Key p" by auto
  from infer_leaves[OF dv ap pl, of val "[]"] i mk
  have d': "dynElem (rootElem (VMap es'))"
    and l': "samePerKey (leaves [] (rootElem (VMap es'))) (leaves [] (rootElem V) @ [rendered pv])"
    by (auto simp: rootElem_def leavesOpt_def rootOpt_def rendered_def pv)
  have acc': "list_all (\<lambda>q. accepts (rootOpt (VMap es')) (rooted q)) (map fst ps)"
    unfolding list_all_iff
  proof
    fix q assume q: "q \<in> set (map fst ps)"
    from accepts_after[OF dv ap i, of "rooted q"]
    have "accepts (rootOpt (VMap es')) (rooted q) =
          (accepts (rootOpt V) (rooted q) \<and> compatRel (rooted p) (rooted q))"
      by (simp add: rootOpt_def)
    moreover from aps q have "accepts (rootOpt V) (rooted q)" by (auto simp: list_all_iff)
    moreover from cp q have "compatRel (rooted p) (rooted q)"
      by (auto simp: list_all_iff compatible_def)
    ultimately show "accepts (rootOpt (VMap es')) (rooted q)" by simp
  qed
  have "VMap es' = VNil \<or> VMap es' = VMap (mapEntries (VMap es'))" by simp
  from Cons.IH[OF this d' pps cons acc'] obtain V' where
    V': "assignPairs env True dynamicMap (VMap es') ps = (V', None)"
    "V' = VNil \<or> V' = VMap (mapEntries V')" "dynElem (rootElem V')"
    "samePerKey (leaves [] (rootElem V')) (leaves [] (rootElem (VMap es')) @ map rendered ps)"
    by auto
  have "samePerKey (leaves [] (rootElem (VMap es')) @ map rendered ps)
          ((leaves [] (rootElem V) @ [rendered pv]) @ map rendered ps)"
    by (rule samePerKey_append[OF l' samePerKey_refl])
  with V'(4) have "samePerKey (leaves [] (rootElem V'))
          (leaves [] (rootElem V) @ map rendered (pv # ps))"
    using samePerKey_trans by fastforce
  with V'(1,2,3) a pv show ?case by simp
qed

lemma accepts_empty_root:
  assumes "plainPath p" "mapEntries V = []"
  shows "accepts (rootOpt V) (rooted p)"
  using assms by (cases p) (auto simp: plainPath_def rooted_def rootOpt_def valueOf_def)

lemma Marshal_dynamic:
  assumes "fairOrder env" "V = VNil \<or> V = VMap (mapEntries V)" "dynElem (rootElem V)"
    "samePerKey (leaves [] (rootElem V)) qs"
  shows "Marshal env (Some (TPtr dynamicMap, VPtr V)) =
           Inr (joinAmp (map encodePair (sort_key fst qs)))"
proof -
  let ?env0 = "env\<lparr>MapKeys := \<lambda>pos ks. ks\<rparr>"
  have id: "\<forall>pos ks. MapKeys ?env0 pos ks = ks" by simp
  from assms(3) have d: "dynElem (VIface (TMap TString TInterface) (VMap (mapEntries V)))"
    by (simp add: rootElem_def)
  have e0: "emitValue ?env0 [] [] True False (TMap TString TInterface) V =
            Inr (leaves [] (rootElem V))"
    using emit_root[OF id d, of True] by (simp add: rootElem_def)
  have pk: "plainKeys (TMap TString TInterface) V"
  proof -
    from dynElem_plainKeys[OF d, of TInterface]
    have k: "plainKeys (TMap TString TInterface) (VMap (mapEntries V))" by simp
    from assms(2) show ?thesis
    proof
      assume "V = VNil"
      then show ?thesis by simp
    next
      assume "V = VMap (mapEntries V)"
      with k show ?thesis by metis
    qed
  qed
  have m: "marshalers env = marshalers ?env0" by simp
  have f0: "\<forall>pos ks. mset (MapKeys ?env0 pos ks) = mset ks" by simp
  from assms(1) have f: "\<forall>pos ks. mset (MapKeys env pos ks) = mset ks"
    by (simp add: fairOrder_def)
  from emit_order[OF m f0 f e0 pk] obtain ps' where
    ps': "emitValue env [] [] True False (TMap TString TInterface) V = Inr ps'"
    "samePerKey (leaves [] (rootElem V)) ps'" by auto
  have top: "emitTop env (Some (TPtr dynamicMap, VPtr V)) = Inr ps'"
    using ps'(1) by (simp add: emitTop_def elemM_def dynamicMap_def)
  have "samePerKey ps' qs"
    using samePerKey_trans[OF samePerKey_sym[OF ps'(2)] assms(4)] .
  from samePerKey_sort[OF this] top show ?thesis
    by (simp add: Marshal_emitTop)
qed

lemma fairOrder_set: "fairOrder env \<Longrightarrow> set (rangeValues env vs) = set vs"
  by (metis fairOrder_def mset_eq_setD)

lemma Unmarshal_pairs:
  assumes "data \<noteq> []" "ParseQuery (TrimSpace data) = (vs, None)"
    "list_all (\<lambda>kv. parses (fst kv)) (rangeValues env vs)"
  shows "Unmarshal env data (Some (TPtr dynamicMap, VPtr V)) =
         (case assignPairs env True dynamicMap V (flatten (rangeValues env vs)) of
            (V', err) \<Rightarrow> (Some (TPtr dynamicMap, VPtr V'), err))"
proof -
  have "\<forall>(rawKey, vals) \<in> set (rangeValues env vs). \<exists>path. parseKey rawKey = Inr path"
  proof (clarify)
    fix rawKey vals assume "(rawKey, vals) \<in> set (rangeValues env vs)"
    with assms(3) have "parses rawKey" by (auto simp: list_all_iff)
    then show "\<exists>path. parseKey rawKey = Inr path"
      by (cases "parseKey rawKey") (auto simp: parses_def)
  qed
  from unmarshalForm_loop_assignPairs[OF this]
  have "unmarshalForm env vs True dynamicMap V =
        assignPairs env True dynamicMap V (flatten (rangeValues env vs))"
    by (simp add: unmarshalForm_def)
  with assms(1,2) show ?thesis
    by (simp add: Unmarshal_def dynamicMap_def Let_def)
qed

lemma round_trip:
  assumes "fairOrder env'" "data \<noteq> []" "ParseQuery (TrimSpace data) = (vs, None)"
    "list_all (\<lambda>kv. parses (fst kv)) (rangeValues env vs)"
    "list_all plainPath (map fst (flatten (rangeValues env vs)))"
    "consistent (map fst (flatten (rangeValues env vs)))"
    "V0 = VNil \<or> V0 = VMap []"
  shows "\<exists>V. Unmarshal env data (Some (TPtr dynamicMap, VPtr V0)) =
               (Some (TPtr dynamicMap, VPtr V), None) \<and>
             Marshal env' (Some (TPtr dynamicMap, VPtr V)) =
               Inr (canonicalize (flatten (rangeValues env vs)))"
proof -
  let ?ps = "flatten (rangeValues env vs)"
  from assms(7) have e: "mapEntries V0 = []" by (auto simp: mapEntries_def)
  from assms(7) have v0: "V0 = VNil \<or> V0 = VMap (mapEntries V0)" by auto
  have d0: "dynElem (rootElem V0)" using e by (simp add: rootElem_def)
  have a0: "list_all (\<lambda>p. accepts (rootOpt V0) (rooted p)) (map fst ?ps)"
    using assms(5) accepts_empty_root[OF _ e] by (simp add: list_all_iff)
  from decode_pairs[OF v0 d0 assms(5,6) a0, of env] obtain V where
    V: "assignPairs env True dynamicMap V0 ?ps = (V, None)"
    "V = VNil \<or> V = VMap (mapEntries V)" "dynElem (rootElem V)"
    "samePerKey (leaves [] (rootElem V)) (leaves [] (rootElem V0) @ map rendered ?ps)"
    by auto
  from V(4) e have l: "samePerKey (leaves [] (rootElem V)) (map rendered ?ps)"
    by (simp add: rootElem_def)
  have u: "Unmarshal env data (Some (TPtr dynamicMap, VPtr V0)) =
           (Some (TPtr dynamicMap, VPtr V), None)"
    using Unmarshal_pairs[OF assms(2,3,4), of V0] V(1) by simp
  from Marshal_dynamic[OF assms(1) V(2,3) l] u show ?thesis
    by (auto simp: canonicalize_def)
qed

lemma compatRel_sym: "compatRel p q \<Longrightarrow> compatRel q p"
  by (induction p q rule: compatRel.induct) (auto split: if_splits)

lemma compatible_sym: "compatible p q \<Longrightarrow> compatible q p"
  by (simp add: compatible_def compatRel_sym)

lemma pair_subset_add:
  assumes "{#p, q#} \<subseteq># add_mset a M"
  shows "{#p, q#} \<subseteq># M \<or> (p = a \<and> q \<in># M) \<or> (q = a \<and> p \<in># M)"
proof (cases "p = a")
  case True
  with assms have "{#q#} \<subseteq># M" by (simp add: mset_subset_eq_add_mset_cancel)
  with True show ?thesis by simp
next
  case False
  from assms have 1: "p \<in># add_mset a M" and 2: "{#q#} \<subseteq># add_mset a M - {#p#}"
    by (simp_all add: insert_subset_eq_iff)
  from 1 False have pM: "p \<in># M" by simp
  show ?thesis
  proof (cases "q = a")
    case True
    with pM show ?thesis by simp
  next
    case qa: False
    from 2 False pM have "q \<in># add_mset a (M - {#p#})" by simp
    with qa have "q \<in># M - {#p#}" by simp
    with pM have "{#p, q#} \<subseteq># M" by (simp add: insert_subset_eq_iff)
    then show ?thesis by simp
  qed
qed

lemma consistent_pairs:
  "consistent ps \<longleftrightarrow> (\<forall>p q. {#p, q#} \<subseteq># mset ps \<longrightarrow> compatible p q)"
proof (induction ps)
  case Nil
  then show ?case by simp
next
  case (Cons a ps)
  show ?case
  proof
    assume c: "consistent (a # ps)"
    then have all: "\<forall>q\<in>set ps. compatible a q" and cs: "consistent ps"
      by (simp_all add: list_all_iff)
    show "\<forall>p q. {#p, q#} \<subseteq># mset (a # ps) \<longrightarrow> compatible p q"
    proof (intro allI impI)
      fix p q assume "{#p, q#} \<subseteq># mset (a # ps)"
      then have "{#p, q#} \<subseteq># add_mset a (mset ps)" by simp
      from pair_subset_add[OF this] show "compatible p q"
        using all cs Cons.IH compatible_sym by auto
    qed
  next
    assume r: "\<forall>p q. {#p, q#} \<subseteq># mset (a # ps) \<longrightarrow> compatible p q"
    have "\<forall>q\<in>set ps. compatible a q"
    proof
      fix q assume "q \<in> set ps"
      then have "{#a, q#} \<subseteq># mset (a # ps)"
        by (simp add: mset_subset_eq_add_mset_cancel)
      with r show "compatible a q" by blast
    qed
    moreover have "consistent ps"
    proof -
      have "\<forall>p q. {#p, q#} \<subseteq># mset ps \<longrightarrow> compatible p q"
      proof (intro allI impI)
        fix p q assume "{#p, q#} \<subseteq># mset ps"
        then have "{#p, q#} \<subseteq># mset (a # ps)"
          using mset_subset_eq_add_left[of "mset ps" "{#a#}"] by (simp add: subset_mset.order_trans)
        with r show "compatible p q" by blast
      qed
      with Cons.IH show ?thesis by simp
    qed
    ultimately show "consistent (a # ps)" by (simp add: list_all_iff)
  qed
qed

lemma consistent_mset: "mset ps = mset qs \<Longrightarrow> consistent ps = consistent qs"
  by (simp add: consistent_pairs)

lemma flatten_concat:
  assumes "list_all (\<lambda>kv. parses (fst kv)) vs"
  shows "flatten vs = concat (map pairsOf vs)"
  using assms
proof (induction vs)
  case Nil
  then show ?case by simp
next
  case (Cons kv vs)
  obtain k vals where kv: "kv = (k, vals)" by (cases kv)
  from Cons.prems kv obtain p where p: "parseKey k = Inr p"
    by (cases "parseKey k") (auto simp: parses_def)
  from Cons kv p show ?case by (simp add: pairsOf_def)
qed

lemma flatten_mset:
  assumes "mset ws = mset vs" "list_all (\<lambda>kv. parses (fst kv)) vs"
  shows "mset (flatten ws) = mset (flatten vs)"
proof -
  from assms have w: "list_all (\<lambda>kv. parses (fst kv)) ws"
    by (metis list_all_iff mset_eq_setD)
  have "mset (flatten ws) = (\<Sum>xs\<leftarrow>map pairsOf ws. mset xs)"
    by (simp add: flatten_concat[OF w] mset_concat)
  also have "\<dots> = sum_mset (image_mset (\<lambda>kv. mset (pairsOf kv)) (mset ws))"
    by (simp add: sum_mset_sum_list[symmetric] comp_def)
  also have "\<dots> = sum_mset (image_mset (\<lambda>kv. mset (pairsOf kv)) (mset vs))"
    by (simp add: assms(1))
  also have "\<dots> = (\<Sum>xs\<leftarrow>map pairsOf vs. mset xs)"
    by (simp add: sum_mset_sum_list[symmetric] comp_def)
  also have "\<dots> = mset (flatten vs)"
    by (simp add: flatten_concat[OF assms(2)] mset_concat)
  finally show ?thesis .
qed

lemma Marshal_dynamic_value:
  assumes "fairOrder env" "V = VNil \<or> V = VMap (mapEntries V)" "dynElem (rootElem V)"
    "samePerKey (leaves [] (rootElem V)) qs"
  shows "Marshal env (Some (dynamicMap, V)) =
           Inr (joinAmp (map encodePair (sort_key fst qs)))"
proof -
  let ?env0 = "env\<lparr>MapKeys := \<lambda>pos ks. ks\<rparr>"
  have id: "\<forall>pos ks. MapKeys ?env0 pos ks = ks" by simp
  from assms(3) have d: "dynElem (VIface (TMap TString TInterface) (VMap (mapEntries V)))"
    by (simp add: rootElem_def)
  have e0: "emitValue ?env0 [] [] False False (TMap TString TInterface) V =
            Inr (leaves [] (rootElem V))"
    using emit_root[OF id d, of False] by (simp add: rootElem_def)
  have pk: "plainKeys (TMap TString TInterface) V"
  proof -
    from dynElem_plainKeys[OF d, of TInterface]
    have k: "plainKeys (TMap TString TInterface) (VMap (mapEntries V))" by simp
    from assms(2) show ?thesis
    proof
      assume "V = VNil"
      then show ?thesis by simp
    next
      assume "V = VMap (mapEntries V)"
      with k show ?thesis by metis
    qed
  qed
  have m: "marshalers env = marshalers ?env0" by simp
  have f0: "\<forall>pos ks. mset (MapKeys ?env0 pos ks) = mset ks" by simp
  from assms(1) have f: "\<forall>pos ks. mset (MapKeys env pos ks) = mset ks"
    by (simp add: fairOrder_def)
  from emit_order[OF m f0 f e0 pk] obtain ps' where
    ps': "emitValue env [] [] False False (TMap TString TInterface) V = Inr ps'"
    "samePerKey (leaves [] (rootElem V)) ps'" by auto
  have top: "emitTop env (Some (dynamicMap, V)) = Inr ps'"
    using ps'(1) by (simp add: emitTop_def elemM_def dynamicMap_def)
  have "samePerKey ps' qs"
    using samePerKey_trans[OF samePerKey_sym[OF ps'(2)] assms(4)] .
  from samePerKey_sort[OF this] top show ?thesis
    by (simp add: Marshal_emitTop)
qed

lemma round_trip_input:
  assumes "fairOrder env" "fairOrder env'" "data \<noteq> []" "ParseQuery (TrimSpace data) = (vs, None)"
    "list_all (\<lambda>kv. parses (fst kv)) vs"
    "list_all plainPath (map fst (flatten vs))"
    "consistent (map fst (flatten vs))"
    "V0 = VNil \<or> V0 = VMap []"
  shows "\<exists>V. Unmarshal env data (Some (TPtr dynamicMap, VPtr V0)) =
               (Some (TPtr dynamicMap, VPtr V), None) \<and>
             Marshal env' (Some (TPtr dynamicMap, VPtr V)) =
               Inr (canonicalize (flatten (rangeValues env vs))) \<and>
             Marshal env' (Some (dynamicMap, V)) =
               Inr (canonicalize (flatten (rangeValues env vs)))"
proof -
  let ?ws = "rangeValues env vs"
  let ?ps = "flatten ?ws"
  from assms(1) have ms: "mset ?ws = mset vs" by (simp add: fairOrder_def)
  then have st: "set ?ws = set vs" by (rule mset_eq_setD)
  from assms(5) st have h4: "list_all (\<lambda>kv. parses (fst kv)) ?ws"
    by (simp add: list_all_iff)
  from flatten_mset[OF ms assms(5)] have mf: "mset ?ps = mset (flatten vs)" .
  then have sf: "set ?ps = set (flatten vs)" by (rule mset_eq_setD)
  from assms(6) sf have h5: "list_all plainPath (map fst ?ps)"
    by (simp add: list_all_iff)
  from mf have "mset (map fst ?ps) = mset (map fst (flatten vs))" by simp
  from consistent_mset[OF this] assms(7) have h6: "consistent (map fst ?ps)" by simp
  from assms(8) have e: "mapEntries V0 = []" by (auto simp: mapEntries_def)
  from assms(8) have v0: "V0 = VNil \<or> V0 = VMap (mapEntries V0)" by auto
  have d0: "dynElem (rootElem V0)" using e by (simp add: rootElem_def)
  have a0: "list_all (\<lambda>p. accepts (rootOpt V0) (rooted p)) (map fst ?ps)"
    using h5 accepts_empty_root[OF _ e] by (simp add: list_all_iff)
  from decode_pairs[OF v0 d0 h5 h6 a0, of env] obtain V where
    V: "assignPairs env True dynamicMap V0 ?ps = (V, None)"
    "V = VNil \<or> V = VMap (mapEntries V)" "dynElem (rootElem V)"
    "samePerKey (leaves [] (rootElem V)) (leaves [] (rootElem V0) @ map rendered ?ps)"
    by auto
  from V(4) e have l: "samePerKey (leaves [] (rootElem V)) (map rendered ?ps)"
    by (simp add: rootElem_def)
  have u: "Unmarshal env data (Some (TPtr dynamicMap, VPtr V0)) =
           (Some (TPtr dynamicMap, VPtr V), None)"
    using Unmarshal_pairs[OF assms(3,4) h4, of V0] V(1) by simp
  from Marshal_dynamic[OF assms(2) V(2,3) l] Marshal_dynamic_value[OF assms(2) V(2,3) l] u
  show ?thesis
    by (auto simp: canonicalize_def)
qed

text \<open>
  Claim C1 (as amended).  Take an input that is not empty, every key of which parses to a
  path that is not empty and has no bracket inside a segment, and in which no two pairs
  conflict: no path is given a leaf twice, no path ends where another one goes on, and no
  position is given both a name and an index marker (\<open>consistent\<close>).  Decoding it into a
  nil or empty \<open>map[string]interface{}\<close> succeeds, and encoding the decoded map (or the
  pointer to it) gives the canonicalization of the input: its (path, leaf) pairs with the
  paths rendered, in the order of the rendered keys, the pairs of one key in the order in
  which the decoder took them (that of the input for the values of one raw key), each pair
  escaped and the pairs joined by \<open>&\<close>.  This holds whatever order the runtime chooses for
  the maps on either side.
\<close>

theorem dynamic_round_trip_is_canonicalization:
  "fairOrder env \<and> fairOrder env' \<and> data \<noteq> [] \<and> ParseQuery (TrimSpace data) = (vs, None) \<and>
   list_all (\<lambda>kv. parses (fst kv)) vs \<and> list_all plainPath (map fst (flatten vs)) \<and>
   consistent (map fst (flatten vs)) \<and> (V0 = VNil \<or> V0 = VMap []) \<longrightarrow>
   (\<exists>V. Unmarshal env data (Some (TPtr dynamicMap, VPtr V0)) =
          (Some (TPtr dynamicMap, VPtr V), None) \<and>
        Marshal env' (Some (TPtr dynamicMap, VPtr V)) =
          Inr (canonicalize (flatten (rangeValues env vs))) \<and>
        Marshal env' (Some (dynamicMap, V)) =
          Inr (canonicalize (flatten (rangeValues env vs))))"
  using round_trip_input[of env env' data vs V0] by blast

lemma ParseQuery_data_items:
  "ParseQuery (TrimSpace ''data[items][]=a&data[items][]=b'') =
     ([(''data[items][]'', [''a'', ''b''])], None)"
  by code_simp

lemma round_trip_example_ok:
  "list_all (\<lambda>kv. parses (fst kv)) [(''data[items][]'', [''a'', ''b''])]"
  "list_all plainPath (map fst (flatten [(''data[items][]'', [''a'', ''b''])]))"
  "consistent (map fst (flatten [(''data[items][]'', [''a'', ''b''])]))"
  by code_simp+

lemma canonicalize_example:
  "canonicalize (flatten (rangeValues plainEnv [(''data[items][]'', [''a'', ''b''])])) =
     ''data%5Bitems%5D%5B%5D=a&data%5Bitems%5D%5B%5D=b''"
  by code_simp

theorem dynamic_round_trip_is_canonicalization_witness:
  "\<exists>V. Unmarshal plainEnv ''data[items][]=a&data[items][]=b''
          (Some (TPtr dynamicMap, VPtr VNil)) = (Some (TPtr dynamicMap, VPtr V), None) \<and>
       Marshal (plainEnv\<lparr>MapKeys := \<lambda>pos. rev\<rparr>) (Some (TPtr dynamicMap, VPtr V)) =
         Inr ''data%5Bitems%5D%5B%5D=a&data%5Bitems%5D%5B%5D=b'' \<and>
       Marshal (plainEnv\<lparr>MapKeys := \<lambda>pos. rev\<rparr>) (Some (dynamicMap, V)) =
         Inr ''data%5Bitems%5D%5B%5D=a&data%5Bitems%5D%5B%5D=b''"
proof -
  note T = dynamic_round_trip_is_canonicalization[of plainEnv
      "plainEnv\<lparr>MapKeys := \<lambda>pos. rev\<rparr>" "''data[items][]=a&data[items][]=b''"
      "[(''data[items][]'', [''a'', ''b''])]" VNil]
  have ne: "''data[items][]=a&data[items][]=b'' \<noteq> []" by simp
  from T fairOrder_plainEnv fairOrder_rev ne ParseQuery_data_items round_trip_example_ok
  have "\<exists>V. Unmarshal plainEnv ''data[items][]=a&data[items][]=b''
          (Some (TPtr dynamicMap, VPtr VNil)) = (Some (TPtr dynamicMap, VPtr V), None) \<and>
       Marshal (plainEnv\<lparr>MapKeys := \<lambda>pos. rev\<rparr>) (Some (TPtr dynamicMap, VPtr V)) =
         Inr (canonicalize (flatten (rangeValues plainEnv [(''data[items][]'', [''a'', ''b''])]))) \<and>
       Marshal (plainEnv\<lparr>MapKeys := \<lambda>pos. rev\<rparr>) (Some (dynamicMap, V)) =
         Inr (canonicalize (flatten (rangeValues plainEnv [(''data[items][]'', [''a'', ''b''])])))"
    by blast
  then show ?thesis by (simp only: canonicalize_example)
qed

text \<open>
  Claim C1 as stated fails for an input that gives one path two leaves: the second replaces
  the first in the decoded map, and the encoding has one pair where the canonicalization of
  the input has two.
\<close>

theorem dynamic_round_trip_loses_repeated_leaf_counterexample:
  "ParseQuery (TrimSpace ''a=1&a=2'') = ([(''a'', [''1'', ''2''])], None) \<and>
   Unmarshal plainEnv ''a=1&a=2'' (Some (TPtr dynamicMap, VPtr VNil)) =
     (Some (TPtr dynamicMap, VPtr (VMap [(''a'', dyn ''2'')])), None) \<and>
   Marshal plainEnv (Some (TPtr dynamicMap, VPtr (VMap [(''a'', dyn ''2'')]))) = Inr ''a=2'' \<and>
   canonicalize (flatten (rangeValues plainEnv [(''a'', [''1'', ''2''])])) = ''a=1&a=2''"
  by code_simp


end
